theory Spec2Isabelle
  imports Complex_Main "HOL-Library.AList"
begin

section \<open>Exceptions\<close>

text \<open>
  The Python exceptions that the modelled code can raise. A function that can raise
  returns \<open>exn + 'a\<close>, with \<open>Inl\<close> for the exception. \<open>InvalidConfiguration\<close> is the
  error named by the specification; no statement of the source raises it.
\<close>

datatype exn = ValueError | KeyError | TypeError | AttributeError | ZeroDivisionError
  | OSError | JSONDecodeError | InvalidConfiguration

section \<open>PrimeCache\<close>

text \<open>
  \<^verbatim>\<open>class PrimeCache\<close> of \<^verbatim>\<open>binary_prime_engine_pro_en.py\<close>. The dictionary
  \<^verbatim>\<open>self.cache\<close> is an association list in insertion order (what a Python dictionary
  keeps), the deque \<^verbatim>\<open>self.access_order\<close> a list with its left end first. The lock
  serialises the operations and has no counterpart in a sequential model.
\<close>

record PrimeCache =
  max_size :: int
  cache :: "(int \<times> bool) list"
  access_order :: "int list"

definition PrimeCache_init :: "int \<Rightarrow> exn + PrimeCache" where
  \<comment> \<open>\<^verbatim>\<open>__init__\<close> stores \<^verbatim>\<open>max_size\<close> as given; there is no raise statement.\<close>
  "PrimeCache_init m = Inr \<lparr>max_size = m, cache = [], access_order = []\<rparr>"

definition dict_keys :: "(int \<times> bool) list \<Rightarrow> int set" where
  "dict_keys d = fst ` set d"

definition deque_remove :: "int \<Rightarrow> int list \<Rightarrow> exn + int list" where
  \<comment> \<open>\<^verbatim>\<open>deque.remove(n)\<close>: drops the first occurrence, \<^verbatim>\<open>ValueError\<close> when there is none.\<close>
  "deque_remove n xs = (if n \<in> set xs then Inr (remove1 n xs) else Inl ValueError)"

definition dict_del :: "int \<Rightarrow> (int \<times> bool) list \<Rightarrow> exn + (int \<times> bool) list" where
  \<comment> \<open>\<^verbatim>\<open>del d[k]\<close>: \<^verbatim>\<open>KeyError\<close> when the key is absent.\<close>
  "dict_del k d = (if k \<in> dict_keys d then Inr (AList.delete k d) else Inl KeyError)"

definition PrimeCache_get :: "PrimeCache \<Rightarrow> int \<Rightarrow> exn + (bool option \<times> PrimeCache)" where
  "PrimeCache_get c n =
     (if n \<in> dict_keys (cache c) then
        (case deque_remove n (access_order c) of
           Inl x \<Rightarrow> Inl x
         | Inr ao \<Rightarrow> Inr (map_of (cache c) n, c\<lparr>access_order := ao @ [n]\<rparr>))
      else Inr (None, c))"

definition make_room :: "PrimeCache \<Rightarrow> int \<Rightarrow> exn + PrimeCache" where
  \<comment> \<open>The \<^verbatim>\<open>if n in self.cache: ... elif len(self.cache) >= self.max_size: ...\<close> of \<^verbatim>\<open>put\<close>.\<close>
  "make_room c n =
     (if n \<in> dict_keys (cache c) then
        (case deque_remove n (access_order c) of
           Inl x \<Rightarrow> Inl x
         | Inr ao \<Rightarrow> Inr (c\<lparr>access_order := ao\<rparr>))
      else if int (length (cache c)) \<ge> max_size c then
        (case access_order c of
           [] \<Rightarrow> Inr c
         | oldest # rest \<Rightarrow>
             (case dict_del oldest (cache c) of
                Inl x \<Rightarrow> Inl x
              | Inr d \<Rightarrow> Inr (c\<lparr>cache := d, access_order := rest\<rparr>)))
      else Inr c)"

definition PrimeCache_put :: "PrimeCache \<Rightarrow> int \<Rightarrow> bool \<Rightarrow> exn + PrimeCache" where
  "PrimeCache_put c n is_prime =
     (if max_size c = 0 then Inr c
      else (case make_room c n of
              Inl x \<Rightarrow> Inl x
            | Inr c1 \<Rightarrow> Inr (c1\<lparr>cache := AList.update n is_prime (cache c1),
                                access_order := access_order c1 @ [n]\<rparr>)))"

definition PrimeCache_size :: "PrimeCache \<Rightarrow> int" where
  "PrimeCache_size c = int (length (cache c))"

text \<open>A finite sequence of cache operations, stopping at the first exception.\<close>

datatype cache_op = Get int | Put int bool

fun op_key :: "cache_op \<Rightarrow> int" where
  "op_key (Get n) = n"
| "op_key (Put n v) = n"

fun cache_step :: "PrimeCache \<Rightarrow> cache_op \<Rightarrow> exn + PrimeCache" where
  "cache_step c (Get n) = (case PrimeCache_get c n of Inl x \<Rightarrow> Inl x | Inr (r, c') \<Rightarrow> Inr c')"
| "cache_step c (Put n v) = PrimeCache_put c n v"

fun run_ops :: "PrimeCache \<Rightarrow> cache_op list \<Rightarrow> exn + PrimeCache" where
  "run_ops c [] = Inr c"
| "run_ops c (x # xs) = (case cache_step c x of Inl e \<Rightarrow> Inl e | Inr c' \<Rightarrow> run_ops c' xs)"

definition cache_inv :: "PrimeCache \<Rightarrow> bool" where
  \<comment> \<open>The dictionary has each key once, and the recency order holds exactly its keys, each once.\<close>
  "cache_inv c \<longleftrightarrow>
     distinct (map fst (cache c)) \<and> distinct (access_order c) \<and>
     set (access_order c) = dict_keys (cache c)"

definition cache_bounded :: "PrimeCache \<Rightarrow> bool" where
  "cache_bounded c \<longleftrightarrow> PrimeCache_size c \<le> max_size c"

section \<open>Properties of the cache\<close>

lemma dict_keys_update: "dict_keys (AList.update k v d) = insert k (dict_keys d)"
  by (simp add: dict_keys_def dom_update)

lemma dict_keys_delete: "dict_keys (AList.delete k d) = dict_keys d - {k}"
  by (auto simp: dict_keys_def AList.delete_eq)

lemma length_update_new:
  "k \<notin> dict_keys d \<Longrightarrow> length (AList.update k v d) = Suc (length d)"
  by (induction d) (auto simp: dict_keys_def)

lemma length_update_old:
  "k \<in> dict_keys d \<Longrightarrow> length (AList.update k v d) = length d"
  by (induction d) (auto simp: dict_keys_def)

lemma length_delete_old:
  "distinct (map fst d) \<Longrightarrow> k \<in> dict_keys d \<Longrightarrow> Suc (length (AList.delete k d)) = length d"
proof (induction d)
  case Nil
  then show ?case by (simp add: dict_keys_def)
next
  case (Cons p d)
  show ?case
  proof (cases "fst p = k")
    case True
    with Cons.prems have "k \<notin> fst ` set d" by auto
    then have "AList.delete k d = d"
      by (induction d) auto
    with True show ?thesis by simp
  next
    case False
    with Cons show ?thesis by (auto simp: dict_keys_def)
  qed
qed

lemma get_inv:
  assumes "cache_inv c"
  shows "\<exists>c'. PrimeCache_get c n = Inr (map_of (cache c) n, c') \<and> cache_inv c' \<and>
           cache c' = cache c \<and> max_size c' = max_size c"
proof (cases "n \<in> dict_keys (cache c)")
  case True
  with assms have "n \<in> set (access_order c)" by (simp add: cache_inv_def)
  with assms True show ?thesis
    by (auto simp: PrimeCache_get_def deque_remove_def cache_inv_def)
next
  case False
  then have "map_of (cache c) n = None"
    by (simp add: dict_keys_def map_of_eq_None_iff)
  with assms False show ?thesis by (simp add: PrimeCache_get_def)
qed

lemma make_room_inv:
  assumes "cache_inv c"
  shows "\<exists>c1. make_room c n = Inr c1 \<and> max_size c1 = max_size c \<and>
           distinct (map fst (cache c1)) \<and> distinct (access_order c1) \<and>
           n \<notin> set (access_order c1) \<and>
           set (access_order c1) = dict_keys (cache c1) - {n}"
proof (cases "n \<in> dict_keys (cache c)")
  case True
  with assms have "n \<in> set (access_order c)" by (simp add: cache_inv_def)
  with assms True show ?thesis
    by (auto simp: make_room_def deque_remove_def cache_inv_def)
next
  case out: False
  show ?thesis
  proof (cases "int (length (cache c)) \<ge> max_size c")
    case False
    with assms out show ?thesis by (auto simp: make_room_def cache_inv_def)
  next
    case full: True
    show ?thesis
    proof (cases "access_order c")
      case Nil
      with assms out full show ?thesis by (auto simp: make_room_def cache_inv_def)
    next
      case (Cons oldest rest)
      with assms have "oldest \<in> dict_keys (cache c)" by (auto simp: cache_inv_def)
      with assms out full Cons show ?thesis
        by (auto simp: make_room_def dict_del_def cache_inv_def dict_keys_delete
            distinct_delete)
    qed
  qed
qed

lemma put_inv:
  assumes "cache_inv c"
  shows "\<exists>c'. PrimeCache_put c n v = Inr c' \<and> cache_inv c' \<and> max_size c' = max_size c"
proof (cases "max_size c = 0")
  case True
  with assms show ?thesis by (simp add: PrimeCache_put_def)
next
  case False
  from make_room_inv [OF assms, of n] obtain c1 where
    c1: "make_room c n = Inr c1" "max_size c1 = max_size c"
      "distinct (map fst (cache c1))" "distinct (access_order c1)"
      "n \<notin> set (access_order c1)" "set (access_order c1) = dict_keys (cache c1) - {n}"
    by blast
  with False show ?thesis
    by (auto simp: PrimeCache_put_def cache_inv_def dict_keys_update distinct_update)
qed

lemma remdups_snoc: "remdups (xs @ [x]) = removeAll x (remdups xs) @ [x]"
  by (induction xs) auto

lemma filter_removeAll: "filter P (removeAll x xs) = removeAll x (filter P xs)"
  by (induction xs) auto

lemma filter_removeAll_cong:
  "(\<And>k. k \<noteq> x \<Longrightarrow> P k = Q k) \<Longrightarrow> filter P (removeAll x xs) = filter Q (removeAll x xs)"
  by (induction xs) auto

lemma filter_neq_removeAll:
  "filter (\<lambda>k. P k \<and> k \<noteq> y) xs = removeAll y (filter P xs)"
  by (induction xs) auto

lemma removeAll_commute: "removeAll x (removeAll y xs) = removeAll y (removeAll x xs)"
  by (induction xs) auto

lemma put_bounded:
  assumes "cache_inv c" "cache_bounded c" "0 \<le> max_size c" "PrimeCache_put c n v = Inr c'"
  shows "cache_bounded c'"
proof (cases "max_size c = 0")
  case True
  with assms show ?thesis by (simp add: PrimeCache_put_def)
next
  case nz: False
  show ?thesis
  proof (cases "n \<in> dict_keys (cache c)")
    case True
    with assms(1) have "n \<in> set (access_order c)" by (simp add: cache_inv_def)
    with assms nz True show ?thesis
      by (auto simp: PrimeCache_put_def make_room_def deque_remove_def cache_bounded_def
          PrimeCache_size_def length_update_old)
  next
    case out: False
    show ?thesis
    proof (cases "int (length (cache c)) \<ge> max_size c")
      case False
      with assms nz out show ?thesis
        by (auto simp: PrimeCache_put_def make_room_def cache_bounded_def
            PrimeCache_size_def length_update_new)
    next
      case full: True
      with assms(2,3) nz have "cache c \<noteq> []"
        by (auto simp: cache_bounded_def PrimeCache_size_def)
      with assms(1) obtain oldest rest where ao: "access_order c = oldest # rest"
        by (cases "access_order c") (auto simp: cache_inv_def dict_keys_def)
      with assms(1) have old: "oldest \<in> dict_keys (cache c)" by (auto simp: cache_inv_def)
      from assms(1) have "distinct (map fst (cache c))" by (simp add: cache_inv_def)
      from length_delete_old [OF this old]
      have len: "Suc (length (AList.delete oldest (cache c))) = length (cache c)" .
      from out have "n \<notin> dict_keys (AList.delete oldest (cache c))"
        by (simp add: dict_keys_delete)
      then have "length (AList.update n v (AList.delete oldest (cache c))) = length (cache c)"
        using len by (simp add: length_update_new)
      with assms nz out full ao old show ?thesis
        by (auto simp: PrimeCache_put_def make_room_def dict_del_def cache_bounded_def
            PrimeCache_size_def)
    qed
  qed
qed

lemma put_full_new:
  assumes "cache_inv c" "0 < max_size c" "PrimeCache_size c = max_size c"
    "n \<notin> dict_keys (cache c)"
  shows "\<exists>oldest rest. access_order c = oldest # rest \<and> oldest \<in> dict_keys (cache c) \<and>
           PrimeCache_put c n v =
             Inr (c\<lparr>cache := AList.update n v (AList.delete oldest (cache c)),
                    access_order := rest @ [n]\<rparr>)"
proof -
  from assms(2,3) have "cache c \<noteq> []" by (auto simp: PrimeCache_size_def)
  with assms(1) obtain oldest rest where ao: "access_order c = oldest # rest"
    by (cases "access_order c") (auto simp: cache_inv_def dict_keys_def)
  with assms(1) have old: "oldest \<in> dict_keys (cache c)" by (auto simp: cache_inv_def)
  with assms ao show ?thesis
    by (auto simp: PrimeCache_put_def make_room_def dict_del_def PrimeCache_size_def)
qed

lemma step_recency:
  assumes inv: "cache_inv c" and z: "max_size c = 0 \<longrightarrow> cache c = []"
    and ao: "access_order c = filter (\<lambda>k. k \<in> dict_keys (cache c)) (remdups ks)"
    and st: "cache_step c x = Inr c'"
  shows "access_order c' = filter (\<lambda>k. k \<in> dict_keys (cache c')) (remdups (ks @ [op_key x]))"
proof -
  let ?K = "dict_keys (cache c)"
  let ?n = "op_key x"
  from inv have d: "distinct (access_order c)" and s: "set (access_order c) = ?K"
    by (simp_all add: cache_inv_def)
  have touch: "remove1 ?n (access_order c) @ [?n] =
      filter (\<lambda>k. k \<in> insert ?n ?K) (remdups (ks @ [?n]))"
  proof -
    have "filter (\<lambda>k. k \<in> insert ?n ?K) (removeAll ?n (remdups ks)) =
        filter (\<lambda>k. k \<in> ?K) (removeAll ?n (remdups ks))"
      by (rule filter_removeAll_cong) simp
    with d show ?thesis
      by (simp add: remdups_snoc ao filter_removeAll distinct_remove1_removeAll)
  qed
  have miss: "?n \<notin> ?K \<Longrightarrow> access_order c = filter (\<lambda>k. k \<in> ?K) (remdups (ks @ [?n]))"
    using s by (simp add: remdups_snoc filter_removeAll ao [symmetric])
  show ?thesis
  proof (cases x)
    case (Get n)
    show ?thesis
    proof (cases "n \<in> ?K")
      case True
      with s have "n \<in> set (access_order c)" by simp
      with st Get True have c': "c' = c\<lparr>access_order := remove1 n (access_order c) @ [n]\<rparr>"
        by (auto simp: PrimeCache_get_def deque_remove_def)
      from True have "insert n ?K = ?K" by auto
      with touch Get c' show ?thesis by simp
    next
      case False
      with st Get have "c' = c" by (auto simp: PrimeCache_get_def)
      with miss False Get show ?thesis by simp
    qed
  next
    case (Put n v)
    show ?thesis
    proof (cases "max_size c = 0")
      case True
      with st Put have "c' = c" by (simp add: PrimeCache_put_def)
      moreover from True z have "n \<notin> ?K" by (simp add: dict_keys_def)
      ultimately show ?thesis using miss Put by simp
    next
      case nz: False
      show ?thesis
      proof (cases "n \<in> ?K")
        case True
        with s have "n \<in> set (access_order c)" by simp
        with st Put True nz have
          "access_order c' = remove1 n (access_order c) @ [n]"
          "dict_keys (cache c') = insert n ?K"
          by (auto simp: PrimeCache_put_def make_room_def deque_remove_def dict_keys_update)
        with touch Put show ?thesis by simp
      next
        case out: False
        with s have nao: "n \<notin> set (access_order c)" by simp
        show ?thesis
        proof (cases "int (length (cache c)) \<ge> max_size c \<and> access_order c \<noteq> []")
          case False
          with st Put out nz have
            "access_order c' = access_order c @ [n]"
            "dict_keys (cache c') = insert n ?K"
            by (auto simp: PrimeCache_put_def make_room_def dict_keys_update
                split: list.splits)
          with touch Put nao show ?thesis by (simp add: remove1_idem)
        next
          case True
          then obtain oldest rest where ao': "access_order c = oldest # rest"
            by (cases "access_order c") auto
          with s have old: "oldest \<in> ?K" by auto
          from ao' d have orest: "oldest \<notin> set rest" by simp
          from ao' nao have nrest: "n \<notin> set rest" by simp
          from st Put out nz True ao' old have c':
            "access_order c' = rest @ [n]"
            "dict_keys (cache c') = insert n (?K - {oldest})"
            by (auto simp: PrimeCache_put_def make_room_def dict_del_def dict_keys_update
                dict_keys_delete)
          have "filter (\<lambda>k. k \<in> insert n (?K - {oldest})) (removeAll n (remdups ks)) =
              filter (\<lambda>k. k \<in> ?K \<and> k \<noteq> oldest) (removeAll n (remdups ks))"
            by (rule filter_removeAll_cong) auto
          also have "\<dots> = removeAll n (removeAll oldest (access_order c))"
            by (simp add: filter_removeAll filter_neq_removeAll ao removeAll_commute)
          also have "\<dots> = rest"
            using ao' orest nrest by simp
          finally show ?thesis using c' Put by (simp add: remdups_snoc)
        qed
      qed
    qed
  qed
qed

lemma get_keeps:
  "PrimeCache_get c n = Inr (r, c') \<Longrightarrow> cache c' = cache c \<and> max_size c' = max_size c"
  by (auto simp: PrimeCache_get_def split: if_splits sum.splits)

definition recency :: "int list \<Rightarrow> PrimeCache \<Rightarrow> bool" where
  \<comment> \<open>The recency order lists the stored keys by the last operation that named them,
      the least recent first.\<close>
  "recency ks c \<longleftrightarrow>
     access_order c = filter (\<lambda>k. k \<in> dict_keys (cache c)) (remdups ks)"

definition reach_inv :: "int list \<Rightarrow> PrimeCache \<Rightarrow> bool" where
  "reach_inv ks c \<longleftrightarrow>
     cache_inv c \<and> (max_size c = 0 \<longrightarrow> cache c = []) \<and>
     (0 \<le> max_size c \<longrightarrow> cache_bounded c) \<and> recency ks c"

lemma step_reach:
  assumes "reach_inv ks c"
  shows "\<exists>c'. cache_step c x = Inr c' \<and> reach_inv (ks @ [op_key x]) c' \<and>
           max_size c' = max_size c"
proof -
  from assms have inv: "cache_inv c" and z: "max_size c = 0 \<longrightarrow> cache c = []"
    and b: "0 \<le> max_size c \<longrightarrow> cache_bounded c"
    and r: "access_order c = filter (\<lambda>k. k \<in> dict_keys (cache c)) (remdups ks)"
    by (simp_all add: reach_inv_def recency_def)
  show ?thesis
  proof (cases x)
    case (Get n)
    from get_inv [OF inv, of n] obtain c' where
      c': "PrimeCache_get c n = Inr (map_of (cache c) n, c')" "cache_inv c'"
        "cache c' = cache c" "max_size c' = max_size c"
      by blast
    with Get have st: "cache_step c x = Inr c'" by simp
    from step_recency [OF inv z r st] c' z b st show ?thesis
      by (simp add: reach_inv_def recency_def cache_bounded_def PrimeCache_size_def)
  next
    case (Put n v)
    from put_inv [OF inv, of n v] obtain c' where
      c': "PrimeCache_put c n v = Inr c'" "cache_inv c'" "max_size c' = max_size c"
      by blast
    with Put have st: "cache_step c x = Inr c'" by simp
    have "max_size c' = 0 \<longrightarrow> cache c' = []"
      using c' z by (auto simp: PrimeCache_put_def)
    moreover have "0 \<le> max_size c' \<longrightarrow> cache_bounded c'"
      using put_bounded [OF inv _ _ c'(1)] b c'(3) by simp
    ultimately show ?thesis
      using step_recency [OF inv z r st] c' st by (simp add: reach_inv_def recency_def)
  qed
qed

lemma run_ops_reach:
  "reach_inv ks c \<Longrightarrow>
     \<exists>c'. run_ops c ops = Inr c' \<and> reach_inv (ks @ map op_key ops) c' \<and>
       max_size c' = max_size c"
proof (induction ops arbitrary: ks c)
  case Nil
  then show ?case by simp
next
  case (Cons x ops)
  from step_reach [OF Cons.prems, of x] obtain c1 where
    c1: "cache_step c x = Inr c1" "reach_inv (ks @ [op_key x]) c1" "max_size c1 = max_size c"
    by blast
  from Cons.IH [OF c1(2)] c1 show ?case by auto
qed

lemma init_reach: "PrimeCache_init m = Inr c0 \<Longrightarrow> reach_inv [] c0 \<and> max_size c0 = m"
  by (auto simp: PrimeCache_init_def reach_inv_def recency_def cache_inv_def dict_keys_def
      cache_bounded_def PrimeCache_size_def)

text \<open>
  C10. A cache constructed with \<open>max_size \<ge> 0\<close> runs every finite sequence of
  \<^verbatim>\<open>get\<close>/\<^verbatim>\<open>put\<close> operations without an exception, and afterwards the number of
  stored entries is at most \<open>max_size\<close> and \<open>access_order\<close> holds exactly the keys of
  the dictionary, each exactly once. (Every prefix of a sequence is a sequence, so the
  invariant holds after each operation.)
\<close>

theorem cache_invariant:
  assumes "0 \<le> m"
  shows "\<exists>c0 c. PrimeCache_init m = Inr c0 \<and> run_ops c0 ops = Inr c \<and>
           max_size c = m \<and> PrimeCache_size c \<le> m \<and>
           distinct (map fst (cache c)) \<and> distinct (access_order c) \<and>
           set (access_order c) = dict_keys (cache c)"
proof -
  obtain c0 where c0: "PrimeCache_init m = Inr c0" by (simp add: PrimeCache_init_def)
  from init_reach [OF c0] have r0: "reach_inv [] c0" and m0: "max_size c0 = m" by simp_all
  from run_ops_reach [OF r0, of ops] obtain c where
    c: "run_ops c0 ops = Inr c" "reach_inv (map op_key ops) c" "max_size c = max_size c0"
    by auto
  with assms m0 have "cache_bounded c" "cache_inv c" by (simp_all add: reach_inv_def)
  with c0 c m0 show ?thesis by (auto simp: cache_bounded_def cache_inv_def)
qed

theorem cache_invariant_witness:
  "(0::int) \<le> 2 \<and>
   PrimeCache_init 2 = Inr \<lparr>max_size = 2, cache = [], access_order = []\<rparr> \<and>
   run_ops \<lparr>max_size = 2, cache = [], access_order = []\<rparr>
       [Put 3 True, Put 5 True, Get 3, Put 7 True, Get 5, Put 9 False] =
     Inr \<lparr>max_size = 2, cache = [(7, True), (9, False)], access_order = [7, 9]\<rparr> \<and>
   PrimeCache_size \<lparr>max_size = 2, cache = [(7, True), (9, False)], access_order = [7, 9]\<rparr>
     \<le> 2"
  using cache_invariant [of 2 "[Put 3 True, Put 5 True, Get 3, Put 7 True, Get 5, Put 9 False]"]
  by (simp add: PrimeCache_init_def PrimeCache_put_def PrimeCache_get_def make_room_def
      deque_remove_def dict_del_def dict_keys_def PrimeCache_size_def)

text \<open>
  C4, as the code has it. Let a cache of capacity \<open>k > 0\<close>, reached from its construction
  by the operations \<open>ops\<close>, hold \<open>k\<close> entries. Recording a key \<open>n\<close> that is not stored
  evicts exactly one entry: the stored key whose last lookup or record in \<open>ops\<close> is the
  oldest. The cache still holds \<open>k\<close> entries afterwards. When \<open>k \<ge> 2\<close> and the last
  operation before the insert was a lookup of a stored key \<open>j\<close>, then \<open>j\<close> is still
  stored after the insert.
\<close>

theorem put_evicts_least_recent:
  assumes "PrimeCache_init k = Inr c0" and "run_ops c0 ops = Inr c"
    and "0 < k" and "PrimeCache_size c = k" and "n \<notin> dict_keys (cache c)"
  shows "\<exists>oldest c'. PrimeCache_put c n v = Inr c' \<and>
           oldest = hd (filter (\<lambda>j. j \<in> dict_keys (cache c)) (remdups (map op_key ops))) \<and>
           oldest \<in> dict_keys (cache c) \<and>
           dict_keys (cache c') = insert n (dict_keys (cache c) - {oldest}) \<and>
           PrimeCache_size c' = k \<and>
           (\<forall>j. 2 \<le> k \<and> ops \<noteq> [] \<and> last ops = Get j \<and> j \<in> dict_keys (cache c)
              \<longrightarrow> j \<in> dict_keys (cache c'))"
proof -
  from init_reach [OF assms(1)] have r0: "reach_inv [] c0" and m0: "max_size c0 = k"
    by simp_all
  from run_ops_reach [OF r0, of ops] assms(2) have
    rc: "reach_inv (map op_key ops) c" and mc: "max_size c = max_size c0"
    by auto
  then have inv: "cache_inv c"
    and rec: "access_order c = filter (\<lambda>j. j \<in> dict_keys (cache c)) (remdups (map op_key ops))"
    by (simp_all add: reach_inv_def recency_def)
  from assms(3,4) m0 mc have pos: "0 < max_size c" and full: "PrimeCache_size c = max_size c"
    by simp_all
  from put_full_new [OF inv pos full assms(5), of v] obtain oldest rest where
    ao: "access_order c = oldest # rest" and old: "oldest \<in> dict_keys (cache c)"
    and put: "PrimeCache_put c n v =
      Inr (c\<lparr>cache := AList.update n v (AList.delete oldest (cache c)),
             access_order := rest @ [n]\<rparr>)"
    by blast
  let ?c' = "c\<lparr>cache := AList.update n v (AList.delete oldest (cache c)),
               access_order := rest @ [n]\<rparr>"
  have keys: "dict_keys (cache ?c') = insert n (dict_keys (cache c) - {oldest})"
    by (simp add: dict_keys_update dict_keys_delete)
  from inv have dk: "distinct (map fst (cache c))" by (simp add: cache_inv_def)
  from assms(5) have "n \<notin> dict_keys (AList.delete oldest (cache c))"
    by (simp add: dict_keys_delete)
  then have "length (AList.update n v (AList.delete oldest (cache c))) = length (cache c)"
    using length_delete_old [OF dk old] by (simp add: length_update_new)
  with assms(4) have size: "PrimeCache_size ?c' = k" by (simp add: PrimeCache_size_def)
  have keep: "j \<in> dict_keys (cache ?c')"
    if "2 \<le> k" "ops \<noteq> []" "last ops = Get j" "j \<in> dict_keys (cache c)" for j
  proof -
    from that(2,3) have "ops = butlast ops @ [Get j]"
      using append_butlast_last_id [of ops] by simp
    then have "map op_key ops = map op_key (butlast ops @ [Get j])" by simp
    then have "remdups (map op_key ops) =
        removeAll j (remdups (map op_key (butlast ops))) @ [j]"
      by (simp add: remdups_snoc)
    with rec that(4) have lst: "access_order c \<noteq> [] \<and> last (access_order c) = j"
      by simp
    from inv have d: "distinct (access_order c)"
      and s: "set (access_order c) = set (map fst (cache c))"
      by (simp_all add: cache_inv_def dict_keys_def)
    have "length (access_order c) = card (set (access_order c))"
      using distinct_card [OF d] by simp
    also have "\<dots> = card (set (map fst (cache c)))" by (simp only: s)
    also have "\<dots> = length (map fst (cache c))" by (rule distinct_card [OF dk])
    finally have "length (access_order c) = length (cache c)" by simp
    moreover from that(1) assms(4) have "2 \<le> length (cache c)"
      by (simp add: PrimeCache_size_def)
    ultimately have "rest \<noteq> []" using ao by auto
    with lst ao have "last rest = j" "j \<in> set rest" by auto
    with d ao have "j \<noteq> oldest" by auto
    with that(4) keys show ?thesis by simp
  qed
  have "PrimeCache_put c n v = Inr ?c' \<and>
      oldest = hd (filter (\<lambda>j. j \<in> dict_keys (cache c)) (remdups (map op_key ops))) \<and>
      oldest \<in> dict_keys (cache c) \<and>
      dict_keys (cache ?c') = insert n (dict_keys (cache c) - {oldest}) \<and>
      PrimeCache_size ?c' = k \<and>
      (\<forall>j. 2 \<le> k \<and> ops \<noteq> [] \<and> last ops = Get j \<and> j \<in> dict_keys (cache c)
         \<longrightarrow> j \<in> dict_keys (cache ?c'))"
  proof (intro conjI allI impI)
    show "oldest = hd (filter (\<lambda>j. j \<in> dict_keys (cache c)) (remdups (map op_key ops)))"
      using rec ao by (simp flip: rec)
  qed (use put old keys size keep in blast)+
  then show ?thesis by blast
qed

theorem put_evicts_least_recent_witness:
  "PrimeCache_init 2 = Inr \<lparr>max_size = 2, cache = [], access_order = []\<rparr> \<and>
   run_ops \<lparr>max_size = 2, cache = [], access_order = []\<rparr> [Put 1 True, Put 2 True, Get 1] =
     Inr \<lparr>max_size = 2, cache = [(1, True), (2, True)], access_order = [2, 1]\<rparr> \<and>
   PrimeCache_put \<lparr>max_size = 2, cache = [(1, True), (2, True)], access_order = [2, 1]\<rparr> 3 False =
     Inr \<lparr>max_size = 2, cache = [(1, True), (3, False)], access_order = [1, 3]\<rparr> \<and>
   hd (filter (\<lambda>j. j \<in> dict_keys [(1, True), (2, True)])
         (remdups (map op_key [Put 1 True, Put 2 True, Get 1]))) = 2 \<and>
   1 \<in> dict_keys [(1, True), (3, False)]"
  using put_evicts_least_recent [of 2 "\<lparr>max_size = 2, cache = [], access_order = []\<rparr>"
      "[Put 1 True, Put 2 True, Get 1]"
      "\<lparr>max_size = 2, cache = [(1, True), (2, True)], access_order = [2, 1]\<rparr>" 3 False]
  by (simp add: PrimeCache_init_def PrimeCache_put_def PrimeCache_get_def make_room_def
      deque_remove_def dict_del_def dict_keys_def PrimeCache_size_def)

text \<open>
  C4 as stated fails for capacity 1: the cache holds key 1 alone, key 1 is looked up, and
  the insert of key 2 evicts key 1, the only entry there is.
\<close>

theorem lru_capacity_one_counterexample:
  "PrimeCache_init 1 = Inr \<lparr>max_size = 1, cache = [], access_order = []\<rparr> \<and>
   run_ops \<lparr>max_size = 1, cache = [], access_order = []\<rparr> [Put 1 True, Get 1] =
     Inr \<lparr>max_size = 1, cache = [(1, True)], access_order = [1]\<rparr> \<and>
   PrimeCache_put \<lparr>max_size = 1, cache = [(1, True)], access_order = [1]\<rparr> 2 True =
     Inr \<lparr>max_size = 1, cache = [(2, True)], access_order = [2]\<rparr> \<and>
   1 \<notin> dict_keys [(2, True)]"
  by (simp add: PrimeCache_init_def PrimeCache_put_def PrimeCache_get_def make_room_def
      deque_remove_def dict_del_def dict_keys_def)

section \<open>Binary encoding\<close>

fun to_bin :: "nat \<Rightarrow> string" where
  "to_bin n = (if n < 2 then [if n = 0 then CHR ''0'' else CHR ''1'']
               else to_bin (n div 2) @ [if n mod 2 = 0 then CHR ''0'' else CHR ''1''])"

declare to_bin.simps [simp del]

definition py_format_0b :: "int \<Rightarrow> int \<Rightarrow> string" where
  "py_format_0b n width =
     (let digits = to_bin (nat \<bar>n\<bar>); sign = (if n < 0 then ''-'' else '''')
      in sign @ replicate (nat width - length sign - length digits) CHR ''0'' @ digits)"

definition bit_length :: "int \<Rightarrow> int" where
  "bit_length n = (if n = 0 then 0 else int (length (to_bin (nat \<bar>n\<bar>))))"

definition binary_code :: "int \<Rightarrow> int option \<Rightarrow> exn + string" where
  "binary_code n bits =
     (case bits of
        None \<Rightarrow>
          (if n = 0 then Inr ''0''
           else (let bits1 = bit_length n;
                     bits2 = ((bits1 + 3) div 4) * 4;
                     bits3 = max bits2 8
                 in Inr (py_format_0b n bits3)))
      | Some b \<Rightarrow> (if b < 0 then Inl ValueError else Inr (py_format_0b n b)))"

definition binary_code_fixed :: "int \<Rightarrow> int \<Rightarrow> exn + string" where
  "binary_code_fixed n bits =
     (if bits < 0 then Inl ValueError
      else Inr (py_format_0b (and n (2 ^ nat bits - 1)) bits))"

definition bin_value :: "string \<Rightarrow> nat" where
  "bin_value s = foldl (\<lambda>a c. 2 * a + (if c = CHR ''1'' then 1 else 0)) 0 s"


lemma bin_value_snoc: "bin_value (s @ [c]) = 2 * bin_value s + (if c = CHR ''1'' then 1 else 0)"
  by (simp add: bin_value_def)

lemma bin_value_to_bin: "bin_value (to_bin n) = n"
proof (induction n rule: to_bin.induct)
  case (1 n)
  show ?case
  proof (cases "n < 2")
    case True
    then have "n = 0 \<or> n = 1" by auto
    then show ?thesis by (auto simp: to_bin.simps [of 0] to_bin.simps [of 1] to_bin.simps [of "Suc 0"] bin_value_def)
  next
    case False
    with 1 have "bin_value (to_bin (n div 2)) = n div 2" by simp
    moreover have "2 * (n div 2) + (if n mod 2 = 0 then 0 else 1) = n" by presburger
    ultimately show ?thesis using False
      by (subst to_bin.simps) (auto simp: bin_value_snoc)
  qed
qed

lemma bin_value_zeros: "bin_value (replicate k CHR ''0'' @ s) = bin_value s"
proof -
  have "foldl (\<lambda>a c. 2 * a + (if c = CHR ''1'' then 1 else 0)) (0::nat) (replicate k CHR ''0'') = 0"
    by (induction k) auto
  then show ?thesis by (simp add: bin_value_def)
qed

lemma length_to_bin_pos: "0 < length (to_bin n)"
  by (subst to_bin.simps) simp

lemma length_to_bin_le: "0 < w \<Longrightarrow> length (to_bin n) \<le> w \<longleftrightarrow> n < 2 ^ w"
proof (induction n arbitrary: w rule: to_bin.induct)
  case (1 n)
  show ?case
  proof (cases "n < 2")
    case True
    have "(2::nat) ^ 1 \<le> 2 ^ w" using 1(2) by (intro power_increasing) auto
    with True 1(2) show ?thesis by (subst to_bin.simps) auto
  next
    case False
    show ?thesis
    proof (cases "w = 1")
      case True
      with False length_to_bin_pos [of "n div 2"] show ?thesis
        by (subst to_bin.simps) auto
    next
      case w: False
      with 1(2) obtain v where v: "w = Suc v" "0 < v" by (cases w) auto
      from 1(1) [OF False v(2)] have "length (to_bin (n div 2)) \<le> v \<longleftrightarrow> n div 2 < 2 ^ v" .
      moreover have "n div 2 < 2 ^ v \<longleftrightarrow> n < 2 ^ w" using v by auto
      ultimately show ?thesis using False v by (subst to_bin.simps) auto
    qed
  qed
qed

lemma and_low_bits: "and n (2 ^ k - 1) = (n::int) mod 2 ^ k"
  by (simp flip: mask_eq_exp_minus_1 take_bit_eq_mask add: take_bit_eq_mod)

lemma length_format:
  "0 \<le> n \<Longrightarrow> length (py_format_0b n w) = max (nat w) (length (to_bin (nat n)))"
  by (auto simp: py_format_0b_def Let_def)

lemma value_format: "0 \<le> n \<Longrightarrow> bin_value (py_format_0b n w) = nat n"
  by (simp add: py_format_0b_def Let_def bin_value_zeros bin_value_to_bin)

lemma to_bin_nth:
  "i < length (to_bin n) \<Longrightarrow>
   to_bin n ! i = (if bit n (length (to_bin n) - 1 - i) then CHR ''1'' else CHR ''0'')"
proof (induction n arbitrary: i rule: to_bin.induct)
  case (1 n)
  show ?case
  proof (cases "n < 2")
    case True
    then have "n = 0 \<or> n = 1" by auto
    with "1.prems" show ?thesis
      by (auto simp: to_bin.simps [of 0] to_bin.simps [of 1] to_bin.simps [of "Suc 0"] bit_0)
  next
    case False
    let ?h = "to_bin (n div 2)"
    from False have eq: "to_bin n = ?h @ [if n mod 2 = 0 then CHR ''0'' else CHR ''1'']"
      by (subst to_bin.simps) simp
    then have len: "length (to_bin n) = Suc (length ?h)" by simp
    show ?thesis
    proof (cases "i < length ?h")
      case True
      from "1.IH" [OF False True]
      have "?h ! i = (if bit (n div 2) (length ?h - 1 - i) then CHR ''1'' else CHR ''0'')" .
      moreover from True have "length (to_bin n) - 1 - i = Suc (length ?h - 1 - i)"
        unfolding len by simp
      moreover have "to_bin n ! i = ?h ! i" using True by (simp add: eq nth_append)
      ultimately show ?thesis by (simp add: bit_Suc)
    next
      case ge: False
      with "1.prems" len have i: "i = length ?h" by simp
      then have "to_bin n ! i = (if n mod 2 = 0 then CHR ''0'' else CHR ''1'')"
        by (simp add: eq)
      moreover from i len have "length (to_bin n) - 1 - i = 0" by simp
      ultimately show ?thesis by (simp add: bit_0 odd_iff_mod_2_eq_one)
    qed
  qed
qed

lemma bit_above_length: "length (to_bin n) \<le> j \<Longrightarrow> \<not> bit n j"
proof -
  assume a: "length (to_bin n) \<le> j"
  have "0 < length (to_bin n)" by (rule length_to_bin_pos)
  from length_to_bin_le [OF this, of n] have "n < 2 ^ length (to_bin n)" by simp
  also from a have "(2::nat) ^ length (to_bin n) \<le> 2 ^ j" by (intro power_increasing) auto
  finally have "n div 2 ^ j = 0" by simp
  then show ?thesis by (simp add: bit_iff_odd)
qed

lemma format_nth:
  assumes "0 \<le> n" and "i < length (py_format_0b n w)"
  shows "py_format_0b n w ! i =
    (if bit (nat n) (length (py_format_0b n w) - 1 - i) then CHR ''1'' else CHR ''0'')"
proof -
  let ?d = "to_bin (nat n)"
  let ?k = "nat w - length ?d"
  from assms(1) have eq: "py_format_0b n w = replicate ?k CHR ''0'' @ ?d"
    by (simp add: py_format_0b_def Let_def)
  then have len: "length (py_format_0b n w) = ?k + length ?d" by simp
  show ?thesis
  proof (cases "i < ?k")
    case True
    then have "py_format_0b n w ! i = CHR ''0''" by (simp add: eq nth_append)
    moreover from True have "length ?d \<le> length (py_format_0b n w) - 1 - i"
      unfolding len by simp
    then have "\<not> bit (nat n) (length (py_format_0b n w) - 1 - i)" by (rule bit_above_length)
    ultimately show ?thesis by simp
  next
    case False
    define L where "L = length ?d"
    define K where "K = nat w - L"
    have K: "K = ?k" by (simp add: K_def L_def)
    from len have len': "length (py_format_0b n w) = K + L" by (simp add: K L_def)
    from False have ge: "K \<le> i" by (simp add: K)
    from assms(2) len' ge have lt: "i - K < L" by arith
    from False have "py_format_0b n w ! i = ?d ! (i - K)" by (simp add: eq nth_append K)
    also from lt have "i - K < length ?d" by (simp add: L_def)
    from to_bin_nth [OF this]
    have "?d ! (i - K) = (if bit (nat n) (L - 1 - (i - K)) then CHR ''1'' else CHR ''0'')"
      by (simp add: L_def)
    also from lt ge have "L - 1 - (i - K) = K + L - 1 - i" by arith
    then have "L - 1 - (i - K) = length (py_format_0b n w) - 1 - i" by (simp add: len')
    finally show ?thesis .
  qed
qed

text \<open>
  C3, as the code has it. For \<open>n \<ge> 0\<close> and an explicit width \<open>w > 0\<close>, the adaptive
  encoder returns the binary digits of \<open>n\<close>, padded with zeros on the left to \<open>w\<close>
  characters: the character at each position is \<open>1\<close> or \<open>0\<close> as the bit of \<open>n\<close> at that
  place is set or not, the first character standing for the highest place. There are
  exactly \<open>w\<close> characters when \<open>n < 2^w\<close>, and otherwise all the digits of \<open>n\<close>, more than
  \<open>w\<close> of them and the first a \<open>1\<close>; the string always denotes \<open>n\<close> itself, no bit is
  discarded. The fixed-width encoder of \<^verbatim>\<open>binary_prime_engine_pro.py\<close> is the one that
  returns exactly \<open>w\<close> characters, which are the low \<open>w\<close> bits of \<open>n\<close>.
\<close>

theorem binary_code_explicit_width:
  assumes "0 \<le> n" and "0 < w"
  shows "\<exists>s t. binary_code n (Some w) = Inr s \<and> bin_value s = nat n \<and>
           length s = max (nat w) (length (to_bin (nat n))) \<and>
           (\<forall>i < length s.
              s ! i = (if bit (nat n) (length s - 1 - i) then CHR ''1'' else CHR ''0'')) \<and>
           (n < 2 ^ nat w \<longrightarrow> length s = nat w) \<and>
           (2 ^ nat w \<le> n \<longrightarrow> s = to_bin (nat n) \<and> nat w < length s \<and>
              2 ^ (length s - 1) \<le> n \<and> n < 2 ^ length s) \<and>
           binary_code_fixed n w = Inr t \<and> length t = nat w \<and>
           bin_value t = nat (n mod 2 ^ nat w) \<and>
           (\<forall>i < nat w.
              t ! i = (if bit (nat n) (nat w - 1 - i) then CHR ''1'' else CHR ''0''))"
proof -
  let ?s = "py_format_0b n w"
  let ?m = "n mod 2 ^ nat w"
  let ?t = "py_format_0b ?m w"
  from assms have pos: "0 < nat w" by simp
  have small: "length (to_bin (nat n)) \<le> nat w \<longleftrightarrow> n < 2 ^ nat w"
  proof -
    have "nat n < 2 ^ nat w \<longleftrightarrow> n < 2 ^ nat w"
      using assms(1) by (simp add: nat_less_iff)
    with length_to_bin_le [OF pos, of "nat n"] show ?thesis by simp
  qed
  have s: "binary_code n (Some w) = Inr ?s" using assms by (simp add: binary_code_def)
  have t: "binary_code_fixed n w = Inr ?t"
    using assms by (simp add: binary_code_fixed_def and_low_bits)
  have m: "0 \<le> ?m" "?m < 2 ^ nat w" by simp_all
  then have "nat ?m < 2 ^ nat w" by (simp add: nat_less_iff)
  with length_to_bin_le [OF pos, of "nat ?m"] have "length (to_bin (nat ?m)) \<le> nat w"
    by simp
  with m(1) have lt: "length ?t = nat w" by (simp add: length_format)
  have big: "?s = to_bin (nat n) \<and> nat w < length ?s \<and> 2 ^ (length ?s - 1) \<le> n \<and>
      n < 2 ^ length ?s" if "2 ^ nat w \<le> n"
  proof -
    let ?d = "to_bin (nat n)"
    from that small have long: "nat w < length ?d" by simp
    with assms have eq: "?s = ?d" by (simp add: py_format_0b_def Let_def)
    from long pos have p1: "0 < length ?d - 1" by simp
    from p1 have nle: "\<not> length ?d \<le> length ?d - 1" by arith
    from length_to_bin_le [OF p1, of "nat n"] nle
    have "\<not> nat n < 2 ^ (length ?d - 1)" by blast
    then have "(2::nat) ^ (length ?d - 1) \<le> nat n" by simp
    then have "int (2 ^ (length ?d - 1)) \<le> int (nat n)" by (simp only: of_nat_le_iff)
    with assms(1) have lo: "2 ^ (length ?d - 1) \<le> n" by simp
    from length_to_bin_le [OF length_to_bin_pos, of "nat n" "nat n"]
    have "nat n < 2 ^ length ?d" by blast
    then have "int (nat n) < int (2 ^ length ?d)" by (simp only: of_nat_less_iff)
    with assms(1) have hi: "n < 2 ^ length ?d" by simp
    from eq long lo hi show ?thesis by simp
  qed
  have fit: "length ?s = nat w" if "n < 2 ^ nat w"
    using that small assms by (simp add: length_format)
  have sbits: "\<forall>i < length ?s.
      ?s ! i = (if bit (nat n) (length ?s - 1 - i) then CHR ''1'' else CHR ''0'')"
    using format_nth [OF assms(1)] by blast
  have tbits: "\<forall>i < nat w.
      ?t ! i = (if bit (nat n) (nat w - 1 - i) then CHR ''1'' else CHR ''0'')"
  proof (intro allI impI)
    fix i assume i: "i < nat w"
    with lt have "i < length ?t" by simp
    from format_nth [OF m(1) this] lt
    have "?t ! i = (if bit (nat ?m) (nat w - 1 - i) then CHR ''1'' else CHR ''0'')" by simp
    moreover have "nat ?m = take_bit (nat w) (nat n)"
      using assms(1) by (simp add: take_bit_eq_mod nat_mod_distrib nat_power_eq)
    moreover from i have "nat w - 1 - i < nat w" by simp
    ultimately show "?t ! i = (if bit (nat n) (nat w - 1 - i) then CHR ''1'' else CHR ''0'')"
      by (simp add: bit_take_bit_iff)
  qed
  from value_format [OF assms(1), of w] have vs: "bin_value ?s = nat n" .
  from value_format [OF m(1), of w] have vt: "bin_value ?t = nat ?m" .
  from length_format [OF assms(1), of w]
  have ls: "length ?s = max (nat w) (length (to_bin (nat n)))" .
  from fit have fit': "n < 2 ^ nat w \<longrightarrow> length ?s = nat w" by (rule impI)
  from big have big': "2 ^ nat w \<le> n \<longrightarrow> ?s = to_bin (nat n) \<and> nat w < length ?s \<and>
      2 ^ (length ?s - 1) \<le> n \<and> n < 2 ^ length ?s"
    by (rule impI)
  from s vs ls sbits fit' big' t lt vt tbits
  have "binary_code n (Some w) = Inr ?s \<and> bin_value ?s = nat n \<and>
      length ?s = max (nat w) (length (to_bin (nat n))) \<and>
      (\<forall>i < length ?s.
         ?s ! i = (if bit (nat n) (length ?s - 1 - i) then CHR ''1'' else CHR ''0'')) \<and>
      (n < 2 ^ nat w \<longrightarrow> length ?s = nat w) \<and>
      (2 ^ nat w \<le> n \<longrightarrow> ?s = to_bin (nat n) \<and> nat w < length ?s \<and>
         2 ^ (length ?s - 1) \<le> n \<and> n < 2 ^ length ?s) \<and>
      binary_code_fixed n w = Inr ?t \<and> length ?t = nat w \<and>
      bin_value ?t = nat ?m \<and>
      (\<forall>i < nat w.
         ?t ! i = (if bit (nat n) (nat w - 1 - i) then CHR ''1'' else CHR ''0''))"
    by (intro conjI)
  then show ?thesis
    by (intro exI [of _ ?s] exI [of _ ?t])
qed

theorem binary_code_explicit_width_witness:
  "(0::int) \<le> 5 \<and> (0::int) < 8 \<and> binary_code 5 (Some 8) = Inr ''00000101'' \<and>
   bin_value ''00000101'' = 5 \<and> length ''00000101'' = 8 \<and>
   binary_code_fixed 5 8 = Inr ''00000101''"
proof -
  have "binary_code 5 (Some 8) = Inr ''00000101''" "bin_value ''00000101'' = 5"
    "binary_code_fixed 5 8 = Inr ''00000101''"
    by code_simp+
  with binary_code_explicit_width [of 5 8] show ?thesis by simp
qed

text \<open>
  C3 as stated fails for the adaptive encoder: with the explicit width 8, the number
  256 is rendered with all its nine digits; the high bit is not discarded.
\<close>

theorem binary_code_no_truncation_counterexample:
  "binary_code 256 (Some 8) = Inr ''100000000'' \<and> length ''100000000'' = 9 \<and>
   bin_value ''100000000'' = 256"
proof -
  have "binary_code 256 (Some 8) = Inr ''100000000''" "bin_value ''100000000'' = 256"
    by code_simp+
  then show ?thesis by simp
qed

section \<open>Python values and the statistics\<close>

text \<open>
  The values that \<^verbatim>\<open>json.load\<close> returns. A statistics field holds such a value: an
  \<^verbatim>\<open>int\<close> or a \<^verbatim>\<open>float\<close> in a fresh engine, and whatever the persisted snapshot stored
  after a restore. Floats are modelled by the rationals (no rounding), with \<open>JInfinity\<close>
  for \<^verbatim>\<open>float('inf')\<close>; \<^verbatim>\<open>NaN\<close> and \<^verbatim>\<open>-Infinity\<close> are left out.
\<close>

datatype json = JNull | JBool bool | JInt int | JFloat rat | JInfinity | JStr string
  | JList "json list" | JObj "(string \<times> json) list"

datatype num = NInt int | NFloat rat | NInf

fun as_num :: "json \<Rightarrow> num option" where
  "as_num (JBool b) = Some (NInt (if b then 1 else 0))"
| "as_num (JInt i) = Some (NInt i)"
| "as_num (JFloat r) = Some (NFloat r)"
| "as_num JInfinity = Some NInf"
| "as_num _ = None"

fun num_less_int :: "num \<Rightarrow> int \<Rightarrow> bool" where
  "num_less_int (NInt i) g = (i < g)"
| "num_less_int (NFloat r) g = (r < of_int g)"
| "num_less_int NInf g = False"

fun int_less_num :: "int \<Rightarrow> num \<Rightarrow> bool" where
  "int_less_num g (NInt i) = (g < i)"
| "int_less_num g (NFloat r) = (of_int g < r)"
| "int_less_num g NInf = True"

definition py_add_int :: "json \<Rightarrow> int \<Rightarrow> exn + json" where
  \<comment> \<open>\<^verbatim>\<open>x + k\<close> for an \<^verbatim>\<open>int\<close> \<open>k\<close>.\<close>
  "py_add_int x k =
     (case as_num x of
        None \<Rightarrow> Inl TypeError
      | Some (NInt i) \<Rightarrow> Inr (JInt (i + k))
      | Some (NFloat r) \<Rightarrow> Inr (JFloat (r + of_int k))
      | Some NInf \<Rightarrow> Inr JInfinity)"

definition py_max_int :: "json \<Rightarrow> int \<Rightarrow> exn + json" where
  \<comment> \<open>\<^verbatim>\<open>max(x, g)\<close>: the second argument wins only when \<^verbatim>\<open>g > x\<close>.\<close>
  "py_max_int x g =
     (case as_num x of
        None \<Rightarrow> Inl TypeError
      | Some v \<Rightarrow> Inr (if num_less_int v g then JInt g else x))"

definition py_min_int :: "json \<Rightarrow> int \<Rightarrow> exn + json" where
  \<comment> \<open>\<^verbatim>\<open>min(x, g)\<close>: the second argument wins only when \<^verbatim>\<open>g < x\<close>.\<close>
  "py_min_int x g =
     (case as_num x of
        None \<Rightarrow> Inl TypeError
      | Some v \<Rightarrow> Inr (if int_less_num g v then JInt g else x))"

definition py_eq_int :: "json \<Rightarrow> int \<Rightarrow> bool" where
  \<comment> \<open>\<^verbatim>\<open>x == k\<close>; a value that is no number is unequal, without an exception.\<close>
  "py_eq_int x k =
     (case as_num x of
        Some (NInt i) \<Rightarrow> i = k
      | Some (NFloat r) \<Rightarrow> r = of_int k
      | _ \<Rightarrow> False)"

definition py_smooth :: "json \<Rightarrow> int \<Rightarrow> exn + json" where
  \<comment> \<open>\<^verbatim>\<open>(1 - alpha) * x + alpha * gap\<close> with \<^verbatim>\<open>alpha = 0.1\<close>.\<close>
  "py_smooth x gap =
     (let alpha = (1 / 10 :: rat) in
      case as_num x of
        None \<Rightarrow> Inl TypeError
      | Some (NInt i) \<Rightarrow> Inr (JFloat ((1 - alpha) * of_int i + alpha * of_int gap))
      | Some (NFloat r) \<Rightarrow> Inr (JFloat ((1 - alpha) * r + alpha * of_int gap))
      | Some NInf \<Rightarrow> Inr JInfinity)"

definition py_div_float :: "json \<Rightarrow> rat \<Rightarrow> exn + json" where
  \<comment> \<open>\<^verbatim>\<open>x / t\<close> for a \<^verbatim>\<open>float\<close> \<open>t > 0\<close>.\<close>
  "py_div_float x t =
     (case as_num x of
        None \<Rightarrow> Inl TypeError
      | Some (NInt i) \<Rightarrow> Inr (JFloat (of_int i / t))
      | Some (NFloat r) \<Rightarrow> Inr (JFloat (r / t))
      | Some NInf \<Rightarrow> Inr JInfinity)"

record PrimeStats =
  total_primes :: json
  total_candidates :: json
  total_time :: json
  avg_gap :: json
  max_gap :: json
  min_gap :: json
  primes_per_second :: json
  cache_hits :: json
  cache_size :: json

definition PrimeStats_init :: PrimeStats where
  "PrimeStats_init =
     \<lparr>total_primes = JInt 0, total_candidates = JInt 0, total_time = JFloat 0,
      avg_gap = JFloat 0, max_gap = JInt 0, min_gap = JInfinity,
      primes_per_second = JFloat 0, cache_hits = JInt 0, cache_size = JInt 0\<rparr>"

section \<open>The engine and the primality test\<close>

text \<open>
  The engine object. \<open>flushes\<close> logs what each call of \<^verbatim>\<open>_save_database\<close> hands to the
  file (the composite registry and the statistics); the file system itself is outside
  the state.
\<close>

record engine =
  ecache :: PrimeCache
  stats :: PrimeStats
  code_db :: "json set"
  running :: bool
  save_interval :: int
  progress_interval :: int
  flushes :: "(json set \<times> PrimeStats) list"

function sqrt_search :: "nat \<Rightarrow> nat \<Rightarrow> nat" where
  "sqrt_search r n = (if (r + 1) * (r + 1) \<le> n then sqrt_search (r + 1) n else r)"
  by pat_completeness auto
termination
proof (relation "measure (\<lambda>(r, n). n - r)")
  show "wf (measure (\<lambda>(r, n). n - r))" by simp
next
  fix r n :: nat
  assume a: "(r + 1) * (r + 1) \<le> n"
  have "r + 1 \<le> (r + 1) * (r + 1)" by simp
  with a have "r < n" by linarith
  then show "((r + 1, n), (r, n)) \<in> measure (\<lambda>(r, n). n - r)" by simp
qed

declare sqrt_search.simps [simp del]

definition floor_sqrt :: "int \<Rightarrow> int" where
  \<comment> \<open>\<^verbatim>\<open>int(math.sqrt(n))\<close>, taken as the integer square root: the largest \<open>r\<close> with
      \<open>r * r \<le> n\<close>. The float square root gives exactly this for \<open>0 \<le> n < 2^52\<close>.\<close>
  "floor_sqrt n = int (sqrt_search 0 (nat n))"

definition small_primes :: "int list" where
  "small_primes = [3, 5, 7, 11, 13, 17, 19, 23, 29, 31]"

fun small_prime_loop :: "int \<Rightarrow> int \<Rightarrow> int list \<Rightarrow> bool" where
  \<comment> \<open>The \<^verbatim>\<open>for p in small_primes\<close> loop; True when it returns at a divisor.\<close>
  "small_prime_loop n limit [] = False"
| "small_prime_loop n limit (p # ps) =
     (if p \<ge> limit then False
      else if n mod p = 0 then True
      else small_prime_loop n limit ps)"

function odd_divisor_loop :: "int \<Rightarrow> int \<Rightarrow> int \<Rightarrow> bool" where
  \<comment> \<open>The \<^verbatim>\<open>while d < limit\<close> loop; True when it returns at a divisor.\<close>
  "odd_divisor_loop n limit d =
     (if d < limit then (if n mod d = 0 then True else odd_divisor_loop n limit (d + 2))
      else False)"
  by pat_completeness auto
termination
  by (relation "measure (\<lambda>(n, limit, d). nat (limit - d))") auto

declare odd_divisor_loop.simps [simp del]

definition record_composite :: "engine \<Rightarrow> int \<Rightarrow> exn + (bool \<times> engine)" where
  \<comment> \<open>\<^verbatim>\<open>self.cache.put(n, False); self.code_db.add(self.binary_code(n)); return False\<close>\<close>
  "record_composite e n =
     (case PrimeCache_put (ecache e) n False of
        Inl x \<Rightarrow> Inl x
      | Inr c \<Rightarrow>
          (case binary_code n None of
             Inl x \<Rightarrow> Inl x
           | Inr s \<Rightarrow> Inr (False, e\<lparr>ecache := c, code_db := insert (JStr s) (code_db e)\<rparr>)))"

definition is_prime_optimized :: "engine \<Rightarrow> int \<Rightarrow> exn + (bool \<times> engine)" where
  "is_prime_optimized e n =
     (if n < 2 then Inr (False, e)
      else if n = 2 then Inr (True, e)
      else if n mod 2 = 0 then Inr (False, e)
      else
        (case PrimeCache_get (ecache e) n of
           Inl x \<Rightarrow> Inl x
         | Inr (cached, c) \<Rightarrow>
             (case cached of
                Some v \<Rightarrow>
                  (case py_add_int (cache_hits (stats e)) 1 of
                     Inl x \<Rightarrow> Inl x
                   | Inr h \<Rightarrow> Inr (v, e\<lparr>ecache := c, stats := (stats e)\<lparr>cache_hits := h\<rparr>\<rparr>))
              | None \<Rightarrow>
                  (let e1 = e\<lparr>ecache := c\<rparr>; limit = floor_sqrt n + 1 in
                   if small_prime_loop n limit small_primes then record_composite e1 n
                   else if odd_divisor_loop n limit 37 then record_composite e1 n
                   else
                     (case PrimeCache_put c n True of
                        Inl x \<Rightarrow> Inl x
                      | Inr c' \<Rightarrow> Inr (True, e1\<lparr>ecache := c'\<rparr>))))))"

definition prime_ref :: "int \<Rightarrow> bool" where
  \<comment> \<open>The reference definition: at least 2, and no divisor from 2 up to \<open>n - 1\<close>.\<close>
  "prime_ref n \<longleftrightarrow> 2 \<le> n \<and> (\<forall>d \<in> {2..<n}. \<not> d dvd n)"

section \<open>Correctness of the trial division\<close>

lemma sqrt_search_bounds:
  "r * r \<le> n \<Longrightarrow> sqrt_search r n * sqrt_search r n \<le> n \<and>
     n < (sqrt_search r n + 1) * (sqrt_search r n + 1)"
proof (induction r n rule: sqrt_search.induct)
  case (1 r n)
  show ?case
  proof (cases "(r + 1) * (r + 1) \<le> n")
    case True
    then have eq: "sqrt_search r n = sqrt_search (r + 1) n"
      by (subst sqrt_search.simps) simp
    from 1(1) [OF True True] show ?thesis unfolding eq .
  next
    case False
    then have eq: "sqrt_search r n = r"
      by (subst sqrt_search.simps) simp
    from False 1(2) show ?thesis unfolding eq by simp
  qed
qed

lemma floor_sqrt_bounds:
  assumes "0 \<le> n"
  shows "0 \<le> floor_sqrt n" and "floor_sqrt n * floor_sqrt n \<le> n"
    and "n < (floor_sqrt n + 1) * (floor_sqrt n + 1)"
proof -
  let ?r = "sqrt_search 0 (nat n)"
  from sqrt_search_bounds [of 0 "nat n"] have
    a: "?r * ?r \<le> nat n" and b: "nat n < (?r + 1) * (?r + 1)" by simp_all
  show "0 \<le> floor_sqrt n" by (simp add: floor_sqrt_def)
  from a have "int (?r * ?r) \<le> int (nat n)" by (simp only: of_nat_le_iff)
  with assms show "floor_sqrt n * floor_sqrt n \<le> n" by (simp add: floor_sqrt_def)
  from b have "int (nat n) < int ((?r + 1) * (?r + 1))" by (simp only: of_nat_less_iff)
  with assms show "n < (floor_sqrt n + 1) * (floor_sqrt n + 1)"
    by (simp add: floor_sqrt_def algebra_simps)
qed

lemma below_limit_iff:
  assumes "0 \<le> n" "0 \<le> d"
  shows "d < floor_sqrt n + 1 \<longleftrightarrow> d * d \<le> n"
proof
  assume "d < floor_sqrt n + 1"
  then have "d \<le> floor_sqrt n" by simp
  with assms(2) have "d * d \<le> floor_sqrt n * floor_sqrt n" by (intro mult_mono) auto
  with floor_sqrt_bounds(2) [OF assms(1)] show "d * d \<le> n" by simp
next
  assume dd: "d * d \<le> n"
  show "d < floor_sqrt n + 1"
  proof (rule ccontr)
    assume "\<not> d < floor_sqrt n + 1"
    then have le: "floor_sqrt n + 1 \<le> d" by simp
    from floor_sqrt_bounds(1) [OF assms(1)] have "0 \<le> floor_sqrt n + 1" by simp
    with le have "(floor_sqrt n + 1) * (floor_sqrt n + 1) \<le> d * d" by (intro mult_mono) auto
    with floor_sqrt_bounds(3) [OF assms(1)] dd show False by simp
  qed
qed

lemma small_prime_loop_iff:
  "sorted ps \<Longrightarrow> small_prime_loop n limit ps \<longleftrightarrow> (\<exists>p \<in> set ps. p < limit \<and> n mod p = 0)"
proof (induction ps)
  case Nil
  show ?case by simp
next
  case (Cons p ps)
  then have ih: "small_prime_loop n limit ps \<longleftrightarrow> (\<exists>q \<in> set ps. q < limit \<and> n mod q = 0)"
    and le: "\<forall>q \<in> set ps. p \<le> q"
    by simp_all
  show ?case
  proof (cases "p \<ge> limit")
    case True
    with le have "\<forall>q \<in> set (p # ps). \<not> q < limit" by auto
    with True show ?thesis by auto
  next
    case False
    with ih show ?thesis by auto
  qed
qed

definition odd_divisor_from :: "int \<Rightarrow> int \<Rightarrow> int \<Rightarrow> bool" where
  \<comment> \<open>Some \<open>d, d + 2, d + 4, \<dots>\<close> below \<open>limit\<close> divides \<open>n\<close>.\<close>
  "odd_divisor_from n limit d \<longleftrightarrow> (\<exists>k. 0 \<le> k \<and> d + 2 * k < limit \<and> n mod (d + 2 * k) = 0)"

lemma odd_divisor_fromE:
  assumes "odd_divisor_from n limit d"
  obtains k where "0 \<le> k" "d + 2 * k < limit" "n mod (d + 2 * k) = 0"
  using assms unfolding odd_divisor_from_def by (elim exE conjE)

lemma odd_divisor_fromI:
  assumes "0 \<le> k" "d + 2 * k < limit" "n mod (d + 2 * k) = 0"
  shows "odd_divisor_from n limit d"
  unfolding odd_divisor_from_def using assms by (intro exI [of _ k] conjI)

lemma odd_divisor_from_none: "\<not> d < limit \<Longrightarrow> \<not> odd_divisor_from n limit d"
proof
  assume a: "\<not> d < limit" and b: "odd_divisor_from n limit d"
  from b obtain k where "0 \<le> k" "d + 2 * k < limit" by (rule odd_divisor_fromE)
  with a show False by simp
qed

lemma odd_divisor_from_here: "d < limit \<Longrightarrow> n mod d = 0 \<Longrightarrow> odd_divisor_from n limit d"
  by (rule odd_divisor_fromI [of 0]) simp_all

lemma odd_divisor_from_next:
  assumes "n mod d \<noteq> 0"
  shows "odd_divisor_from n limit d = odd_divisor_from n limit (d + 2)"
proof
  assume "odd_divisor_from n limit d"
  then obtain k where k: "0 \<le> k" "d + 2 * k < limit" "n mod (d + 2 * k) = 0"
    by (rule odd_divisor_fromE)
  have "k \<noteq> 0"
  proof
    assume "k = 0"
    with k(3) have "n mod d = 0" by simp
    with assms show False by contradiction
  qed
  with k(1) have k1: "0 \<le> k - 1" by simp
  have eq: "d + 2 + 2 * (k - 1) = d + 2 * k" by simp
  have a: "d + 2 + 2 * (k - 1) < limit" unfolding eq by (rule k(2))
  have b: "n mod (d + 2 + 2 * (k - 1)) = 0" unfolding eq by (rule k(3))
  from k1 a b show "odd_divisor_from n limit (d + 2)" by (rule odd_divisor_fromI)
next
  assume "odd_divisor_from n limit (d + 2)"
  then obtain k where k: "0 \<le> k" "d + 2 + 2 * k < limit" "n mod (d + 2 + 2 * k) = 0"
    by (rule odd_divisor_fromE)
  from k(1) have k1: "0 \<le> k + 1" by simp
  have eq: "d + 2 * (k + 1) = d + 2 + 2 * k" by simp
  have a: "d + 2 * (k + 1) < limit" unfolding eq by (rule k(2))
  have b: "n mod (d + 2 * (k + 1)) = 0" unfolding eq by (rule k(3))
  from k1 a b show "odd_divisor_from n limit d" by (rule odd_divisor_fromI)
qed

lemma odd_divisor_loop_iff: "odd_divisor_loop n limit d = odd_divisor_from n limit d"
proof (induction n limit d rule: odd_divisor_loop.induct)
  case (1 n limit d)
  show ?case
  proof (cases "d < limit")
    case False
    then have "odd_divisor_loop n limit d = False"
      by (subst odd_divisor_loop.simps) (simp only: if_False)
    with odd_divisor_from_none [OF False, of n] show ?thesis by blast
  next
    case lt: True
    show ?thesis
    proof (cases "n mod d = 0")
      case True
      with lt have "odd_divisor_loop n limit d = True"
        by (subst odd_divisor_loop.simps) (simp only: if_True simp_thms)
      with odd_divisor_from_here [OF lt True] show ?thesis by blast
    next
      case False
      with lt have step: "odd_divisor_loop n limit d = odd_divisor_loop n limit (d + 2)"
        by (subst odd_divisor_loop.simps) (simp only: if_True if_False)
      from 1 [OF lt False] odd_divisor_from_next [OF False, of limit] step
      show ?thesis by blast
    qed
  qed
qed

definition trial_divisor :: "int \<Rightarrow> bool" where
  \<comment> \<open>What the two loops of a cache miss compute: a divisor was found below the limit.\<close>
  "trial_divisor n \<longleftrightarrow>
     small_prime_loop n (floor_sqrt n + 1) small_primes \<or>
     odd_divisor_loop n (floor_sqrt n + 1) 37"

lemma proper_divisor_not_prime:
  assumes "2 \<le> d" "d * d \<le> n" "n mod d = 0"
  shows "\<not> prime_ref n"
proof -
  from assms(1) have "d * 2 \<le> d * d" by (intro mult_left_mono) simp_all
  moreover from assms(1) have "d < d * 2" by simp
  ultimately have "d < d * d" by (rule less_le_trans [rotated])
  from this assms(2) have "d < n" by (rule less_le_trans)
  moreover from assms(3) have "d dvd n" by (simp add: dvd_eq_mod_eq_0)
  ultimately show ?thesis using assms(1) by (auto simp: prime_ref_def)
qed

lemma trial_divisor_not_prime:
  assumes "3 \<le> n" "trial_divisor n"
  shows "\<not> prime_ref n"
proof -
  from assms(1) have n0: "0 \<le> n" by simp
  from assms(2) consider
    (small) "small_prime_loop n (floor_sqrt n + 1) small_primes"
    | (odd) "odd_divisor_loop n (floor_sqrt n + 1) 37"
    unfolding trial_divisor_def by (elim disjE)
  then show ?thesis
  proof cases
    case small
    have "sorted small_primes" by (simp add: small_primes_def)
    from small_prime_loop_iff [OF this] small obtain p where
      p: "p \<in> set small_primes" "p < floor_sqrt n + 1" "n mod p = 0"
      by auto
    from p(1) have p2: "2 \<le> p" by (auto simp: small_primes_def)
    with below_limit_iff [OF n0, of p] p(2) have "p * p \<le> n" by simp
    from proper_divisor_not_prime [OF p2 this p(3)] show ?thesis .
  next
    case odd
    then have "odd_divisor_from n (floor_sqrt n + 1) 37" by (simp only: odd_divisor_loop_iff)
    then obtain k where k: "0 \<le> k" "37 + 2 * k < floor_sqrt n + 1" "n mod (37 + 2 * k) = 0"
      by (rule odd_divisor_fromE)
    from k(1) have d2: "2 \<le> 37 + 2 * k" by simp
    with below_limit_iff [OF n0, of "37 + 2 * k"] k(2)
    have "(37 + 2 * k) * (37 + 2 * k) \<le> n" by simp
    from proper_divisor_not_prime [OF d2 this k(3)] show ?thesis .
  qed
qed

lemma small_odd_prime_listed:
  fixes q :: int
  assumes "3 \<le> q" "q < 37" "odd q" "3 dvd q \<longrightarrow> q = 3" "5 dvd q \<longrightarrow> q = 5"
  shows "q \<in> set small_primes"
proof -
  from assms(1,2) have "q \<in> {3, 4, 5, 6, 7, 8, 9, 10, 11, 12, 13, 14, 15, 16, 17, 18, 19, 20,
      21, 22, 23, 24, 25, 26, 27, 28, 29, 30, 31, 32, 33, 34, 35, 36}"
    by simp presburger
  with assms(3,4,5) show ?thesis
    by (auto simp: small_primes_def)
qed

lemma least_divisor:
  assumes "2 \<le> n" "\<not> prime_ref n"
  obtains q where "2 \<le> q" "q < n" "q dvd n" "\<And>d. 2 \<le> d \<Longrightarrow> d < n \<Longrightarrow> d dvd n \<Longrightarrow> q \<le> d"
proof -
  let ?S = "{d \<in> {2..<n}. d dvd n}"
  from assms have ne: "?S \<noteq> {}" by (auto simp: prime_ref_def)
  have fin: "finite ?S" by (rule finite_subset [of _ "{2..<n}"]) auto
  from Min_in [OF fin ne] have "Min ?S \<in> ?S" .
  then have a: "2 \<le> Min ?S" "Min ?S < n" "Min ?S dvd n" by simp_all
  have b: "Min ?S \<le> d" if "2 \<le> d" "d < n" "d dvd n" for d
    using that by (intro Min_le [OF fin]) simp
  from a b show ?thesis by (rule that)
qed

lemma composite_trial_divisor:
  assumes n3: "3 \<le> n" and oddn: "odd n" and np: "\<not> prime_ref n"
  shows "trial_divisor n"
proof -
  from n3 have n2: "2 \<le> n" and n0: "0 \<le> n" by simp_all
  from least_divisor [OF n2 np] obtain q where
    q: "2 \<le> q" "q < n" "q dvd n" and least: "\<And>d. 2 \<le> d \<Longrightarrow> d < n \<Longrightarrow> d dvd n \<Longrightarrow> q \<le> d"
    by blast
  from q(3) obtain m where m: "n = q * m" by (rule dvdE)
  from q(1) have q0: "0 < q" by simp
  have m2: "2 \<le> m"
  proof (rule ccontr)
    assume "\<not> 2 \<le> m"
    then have "m \<le> 1" by simp
    with q0 have "q * m \<le> q * 1" by (intro mult_left_mono) simp_all
    with m q(2) show False by simp
  qed
  have "m < n"
  proof -
    from m2 have "0 < m" by simp
    with q(1) have "2 * m \<le> q * m" by (intro mult_right_mono) simp_all
    moreover from \<open>0 < m\<close> have "m < 2 * m" by simp
    ultimately show ?thesis unfolding m by (rule less_le_trans [rotated])
  qed
  moreover have "m dvd n" unfolding m by simp
  ultimately have "q \<le> m" using m2 by (intro least)
  with q0 have "q * q \<le> q * m" by (intro mult_left_mono) simp_all
  then have qq: "q * q \<le> n" unfolding m .
  from q(1) have "0 \<le> q" by simp
  from below_limit_iff [OF n0 this] qq have lim: "q < floor_sqrt n + 1" by simp
  from q(3) have modq: "n mod q = 0" by (simp add: dvd_eq_mod_eq_0)
  from q(3) oddn have oddq: "odd q" by (meson dvd_trans)
  with q(1) have q3: "3 \<le> q" by (cases "q = 2") simp_all
  have only: "d = q" if "2 \<le> d" "d dvd q" for d
  proof -
    from that(2) q0 have "d \<le> q" by (rule zdvd_imp_le)
    with q(2) have "d < n" by simp
    moreover from that(2) q(3) have "d dvd n" by (rule dvd_trans)
    ultimately have "q \<le> d" using that(1) by (intro least)
    with \<open>d \<le> q\<close> show ?thesis by simp
  qed
  show ?thesis
  proof (cases "q < 37")
    case True
    from only [of 3] only [of 5] have "3 dvd q \<longrightarrow> q = 3" "5 dvd q \<longrightarrow> q = 5" by auto
    from small_odd_prime_listed [OF q3 True oddq this] have "q \<in> set small_primes" .
    moreover have "sorted small_primes" by (simp add: small_primes_def)
    ultimately have "small_prime_loop n (floor_sqrt n + 1) small_primes"
      using lim modq by (subst small_prime_loop_iff) auto
    then show ?thesis by (simp add: trial_divisor_def)
  next
    case False
    from oddq obtain j where j: "q = 2 * j + 1" by (rule oddE)
    with False have "0 \<le> j - 18" and eq: "37 + 2 * (j - 18) = q" by simp_all
    from this(1) have "odd_divisor_from n (floor_sqrt n + 1) 37"
    proof (rule odd_divisor_fromI)
      show "37 + 2 * (j - 18) < floor_sqrt n + 1" unfolding eq by (rule lim)
      show "n mod (37 + 2 * (j - 18)) = 0" unfolding eq by (rule modq)
    qed
    then show ?thesis by (simp add: trial_divisor_def odd_divisor_loop_iff)
  qed
qed

lemma trial_divisor_iff: "3 \<le> n \<Longrightarrow> odd n \<Longrightarrow> trial_divisor n \<longleftrightarrow> \<not> prime_ref n"
  using trial_divisor_not_prime composite_trial_divisor by blast

section \<open>Invariants of the engine\<close>

definition cache_sound :: "PrimeCache \<Rightarrow> bool" where
  \<comment> \<open>Every stored verdict is the primality of its key.\<close>
  "cache_sound c \<longleftrightarrow> (\<forall>(k, v) \<in> set (cache c). v = prime_ref k)"

definition is_int :: "json \<Rightarrow> bool" where
  "is_int x = (case x of JInt i \<Rightarrow> True | _ \<Rightarrow> False)"

definition is_number :: "json \<Rightarrow> bool" where
  "is_number x = (case as_num x of Some v \<Rightarrow> True | None \<Rightarrow> False)"

definition stats_ok :: "PrimeStats \<Rightarrow> bool" where
  \<comment> \<open>The fields that the engine reads hold numbers; the counters hold integers.\<close>
  "stats_ok st \<longleftrightarrow>
     is_int (total_primes st) \<and> is_int (total_candidates st) \<and> is_int (cache_hits st) \<and>
     is_number (avg_gap st) \<and> is_number (max_gap st) \<and> is_number (min_gap st) \<and>
     is_number (primes_per_second st)"

definition engine_ok :: "engine \<Rightarrow> bool" where
  "engine_ok e \<longleftrightarrow> cache_inv (ecache e) \<and> cache_sound (ecache e) \<and> stats_ok (stats e)"

lemma is_intE: "is_int x \<Longrightarrow> (\<And>i. x = JInt i \<Longrightarrow> P) \<Longrightarrow> P"
  by (cases x) (simp_all add: is_int_def)

lemma set_update_subset: "set (AList.update k v d) \<subseteq> insert (k, v) (set d)"
  by (induction d) auto

lemma set_delete_subset: "set (AList.delete k d) \<subseteq> set d"
  by (auto simp: AList.delete_eq)

lemma put_sound:
  assumes "cache_sound c" "v = prime_ref n" "PrimeCache_put c n v = Inr c'"
  shows "cache_sound c'"
proof -
  have mr: "set (cache c1) \<subseteq> set (cache c)" if "make_room c n = Inr c1" for c1
    using that set_delete_subset [of "hd (access_order c)" "cache c"]
    by (auto simp: make_room_def deque_remove_def dict_del_def
        split: if_splits list.splits)
  show ?thesis
  proof (cases "max_size c = 0")
    case True
    with assms show ?thesis by (simp add: PrimeCache_put_def)
  next
    case False
    with assms(3) obtain c1 where c1: "make_room c n = Inr c1"
      and c': "c' = c1\<lparr>cache := AList.update n v (cache c1), access_order := access_order c1 @ [n]\<rparr>"
      by (auto simp: PrimeCache_put_def split: sum.splits)
    from c' have "set (cache c') \<subseteq> insert (n, v) (set (cache c1))"
      using set_update_subset [of n v "cache c1"] by simp
    with mr [OF c1] have "set (cache c') \<subseteq> insert (n, v) (set (cache c))" by blast
    with assms(1,2) show ?thesis unfolding cache_sound_def by blast
  qed
qed

definition same_but_cache :: "engine \<Rightarrow> engine \<Rightarrow> bool" where
  \<comment> \<open>Two engine states that differ at most in the cache, the registry and the hit counter.\<close>
  "same_but_cache e e' \<longleftrightarrow>
     running e' = running e \<and> save_interval e' = save_interval e \<and>
     progress_interval e' = progress_interval e \<and> flushes e' = flushes e \<and>
     max_size (ecache e') = max_size (ecache e) \<and>
     (stats e')\<lparr>cache_hits := JNull\<rparr> = (stats e)\<lparr>cache_hits := JNull\<rparr>"

lemma same_but_cache_refl: "same_but_cache e e"
  by (simp add: same_but_cache_def)

lemma same_but_cache_trans:
  "same_but_cache e1 e2 \<Longrightarrow> same_but_cache e2 e3 \<Longrightarrow> same_but_cache e1 e3"
  by (simp add: same_but_cache_def)

lemma binary_code_auto: "\<exists>s. binary_code n None = Inr s"
  by (simp add: binary_code_def Let_def)

lemma prime_ref_small: "n < 2 \<Longrightarrow> \<not> prime_ref n"
  by (simp add: prime_ref_def)

lemma prime_ref_two: "prime_ref 2"
  by (simp add: prime_ref_def)

lemma prime_ref_even: "2 < n \<Longrightarrow> n mod 2 = 0 \<Longrightarrow> \<not> prime_ref n"
proof -
  assume a: "2 < n" "n mod 2 = 0"
  then have "2 \<in> {2..<n}" "2 dvd n" by (simp_all add: dvd_eq_mod_eq_0)
  then show ?thesis unfolding prime_ref_def by blast
qed

lemma record_composite_ok:
  assumes "cache_inv (ecache e1)" "cache_sound (ecache e1)" "\<not> prime_ref n"
  shows "\<exists>e'. record_composite e1 n = Inr (False, e') \<and> cache_inv (ecache e') \<and>
           cache_sound (ecache e') \<and> stats e' = stats e1 \<and> same_but_cache e1 e'"
proof -
  from put_inv [OF assms(1), of n False] obtain c2 where
    c2: "PrimeCache_put (ecache e1) n False = Inr c2" "cache_inv c2"
      "max_size c2 = max_size (ecache e1)"
    by blast
  from assms(3) have "False = prime_ref n" by simp
  from put_sound [OF assms(2) this c2(1)] have s2: "cache_sound c2" .
  from binary_code_auto obtain s where s: "binary_code n None = Inr s" by blast
  from c2 s2 s show ?thesis
    by (simp add: record_composite_def same_but_cache_def)
qed

lemma miss_unfold:
  assumes "\<not> n < 2" "n \<noteq> 2" "n mod 2 \<noteq> 0"
    and "PrimeCache_get (ecache e) n = Inr (None, c)"
  shows "is_prime_optimized e n =
      (if trial_divisor n then record_composite (e\<lparr>ecache := c\<rparr>) n
       else (case PrimeCache_put c n True of
               Inl x \<Rightarrow> Inl x
             | Inr c' \<Rightarrow> Inr (True, e\<lparr>ecache := c'\<rparr>)))"
  using assms by (simp add: is_prime_optimized_def trial_divisor_def Let_def split: sum.splits)

lemma hit_unfold:
  assumes "\<not> n < 2" "n \<noteq> 2" "n mod 2 \<noteq> 0"
    and "PrimeCache_get (ecache e) n = Inr (Some v, c)"
  shows "is_prime_optimized e n =
      (case py_add_int (cache_hits (stats e)) 1 of
         Inl x \<Rightarrow> Inl x
       | Inr h \<Rightarrow> Inr (v, e\<lparr>ecache := c, stats := (stats e)\<lparr>cache_hits := h\<rparr>\<rparr>))"
  using assms by (simp add: is_prime_optimized_def)

lemma is_prime_optimized_sound:
  assumes ok: "engine_ok e"
  shows "\<exists>e'. is_prime_optimized e n = Inr (prime_ref n, e') \<and> engine_ok e' \<and>
           same_but_cache e e'"
proof -
  from ok have inv: "cache_inv (ecache e)" and snd: "cache_sound (ecache e)"
    and st: "stats_ok (stats e)"
    by (simp_all add: engine_ok_def)
  have "n < 2 \<or> n = 2 \<or> (2 < n \<and> n mod 2 = 0) \<or> (3 \<le> n \<and> n mod 2 \<noteq> 0)"
    by presburger
  then consider (small) "n < 2" | (two) "n = 2" | (even) "2 < n" "n mod 2 = 0"
    | (odd) "3 \<le> n" "n mod 2 \<noteq> 0"
    by (elim disjE conjE)
  then show ?thesis
  proof cases
    case small
    with ok prime_ref_small [OF small] show ?thesis
      by (simp add: is_prime_optimized_def same_but_cache_refl)
  next
    case two
    with ok prime_ref_two show ?thesis
      by (simp add: is_prime_optimized_def same_but_cache_refl)
  next
    case even
    with ok prime_ref_even [OF even] show ?thesis
      by (simp add: is_prime_optimized_def same_but_cache_refl)
  next
    case odd
    then have guards: "\<not> n < 2" "n \<noteq> 2" "n mod 2 \<noteq> 0" by simp_all
    from odd(2) have oddn: "odd n" by (simp add: odd_iff_mod_2_eq_one)
    from get_inv [OF inv, of n] obtain c where
      c: "PrimeCache_get (ecache e) n = Inr (map_of (cache (ecache e)) n, c)" "cache_inv c"
        "cache c = cache (ecache e)" "max_size c = max_size (ecache e)"
      by blast
    from snd c(3) have sc: "cache_sound c" by (simp add: cache_sound_def)
    show ?thesis
    proof (cases "map_of (cache (ecache e)) n")
      case (Some v)
      then have "(n, v) \<in> set (cache (ecache e))" by (rule map_of_SomeD)
      with snd have v: "v = prime_ref n" unfolding cache_sound_def by blast
      from st obtain h where h: "cache_hits (stats e) = JInt h"
        unfolding stats_ok_def by (elim conjE is_intE)
      let ?e' = "e\<lparr>ecache := c, stats := (stats e)\<lparr>cache_hits := JInt (h + 1)\<rparr>\<rparr>"
      from c(1) Some have "PrimeCache_get (ecache e) n = Inr (Some v, c)" by simp
      from hit_unfold [OF guards this] h have "is_prime_optimized e n = Inr (v, ?e')"
        by (simp add: py_add_int_def)
      moreover from c(2) sc st have "engine_ok ?e'"
        by (simp add: engine_ok_def stats_ok_def is_int_def)
      moreover from c(4) have "same_but_cache e ?e'" by (simp add: same_but_cache_def)
      ultimately show ?thesis using v by blast
    next
      case None
      with c(1) have get: "PrimeCache_get (ecache e) n = Inr (None, c)" by simp
      note unf = miss_unfold [OF guards get]
      let ?e1 = "e\<lparr>ecache := c\<rparr>"
      from c(4) have f1: "same_but_cache e ?e1" by (simp add: same_but_cache_def)
      show ?thesis
      proof (cases "trial_divisor n")
        case True
        with trial_divisor_iff [OF odd(1) oddn] have np: "\<not> prime_ref n" by simp
        from c(2) sc have "cache_inv (ecache ?e1)" "cache_sound (ecache ?e1)" by simp_all
        from record_composite_ok [OF this np] obtain e' where
          e': "record_composite ?e1 n = Inr (False, e')" "cache_inv (ecache e')"
            "cache_sound (ecache e')" "stats e' = stats ?e1" "same_but_cache ?e1 e'"
          by blast
        from unf True e'(1) np have "is_prime_optimized e n = Inr (prime_ref n, e')" by simp
        moreover from e'(2,3,4) st have "engine_ok e'" by (simp add: engine_ok_def)
        moreover from f1 e'(5) have "same_but_cache e e'" by (rule same_but_cache_trans)
        ultimately show ?thesis by blast
      next
        case False
        with trial_divisor_iff [OF odd(1) oddn] have p: "prime_ref n" by simp
        from put_inv [OF c(2), of n True] obtain c' where
          c': "PrimeCache_put c n True = Inr c'" "cache_inv c'" "max_size c' = max_size c"
          by blast
        from p have "True = prime_ref n" by simp
        from put_sound [OF sc this c'(1)] have s': "cache_sound c'" .
        let ?e' = "e\<lparr>ecache := c'\<rparr>"
        from unf False c'(1) p have "is_prime_optimized e n = Inr (prime_ref n, ?e')" by simp
        moreover from c'(2) s' st have "engine_ok ?e'" by (simp add: engine_ok_def)
        moreover from c'(3) c(4) have "same_but_cache e ?e'" by (simp add: same_but_cache_def)
        ultimately show ?thesis by blast
      qed
    qed
  qed
qed

section \<open>Loading the persisted state and constructing the engine\<close>

text \<open>
  What \<^verbatim>\<open>_load_database\<close> finds at \<^verbatim>\<open>self.db_file\<close>: no file, a file that cannot be
  opened or read, a file that \<^verbatim>\<open>json.load\<close> rejects, or a file with the parsed value.
  The list of a \<open>JObj\<close> holds the items of the parsed dictionary in their order, each
  key once.
\<close>

datatype file_state = Missing | Unreadable | Malformed | Content json

fun hashable :: "json \<Rightarrow> bool" where
  "hashable (JList xs) = False"
| "hashable (JObj kvs) = False"
| "hashable _ = True"

fun py_key :: "json \<Rightarrow> json" where
  \<comment> \<open>Python identifies \<^verbatim>\<open>True\<close>, \<^verbatim>\<open>1\<close> and \<^verbatim>\<open>1.0\<close> in a set: they are kept as the integer.\<close>
  "py_key (JBool b) = JInt (if b then 1 else 0)"
| "py_key (JFloat r) = (if r = of_int \<lfloor>r\<rfloor> then JInt \<lfloor>r\<rfloor> else JFloat r)"
| "py_key x = x"

fun py_set :: "json \<Rightarrow> exn + json set" where
  \<comment> \<open>\<^verbatim>\<open>set(x)\<close>: the elements of a list, the characters of a string, the keys of a
      dictionary; \<^verbatim>\<open>TypeError\<close> for an unhashable element or a value that is not iterable.\<close>
  "py_set (JList xs) = (if list_all hashable xs then Inr (py_key ` set xs) else Inl TypeError)"
| "py_set (JStr s) = Inr ((\<lambda>c. JStr [c]) ` set s)"
| "py_set (JObj kvs) = Inr ((\<lambda>kv. JStr (fst kv)) ` set kvs)"
| "py_set _ = Inl TypeError"

fun dict_get :: "json \<Rightarrow> string \<Rightarrow> json \<Rightarrow> exn + json" where
  \<comment> \<open>\<^verbatim>\<open>data.get(key, default)\<close>; a value other than a dictionary has no \<^verbatim>\<open>get\<close>.\<close>
  "dict_get (JObj kvs) k dflt = Inr (case map_of kvs k of None \<Rightarrow> dflt | Some v \<Rightarrow> v)"
| "dict_get _ k dflt = Inl AttributeError"

fun py_items :: "json \<Rightarrow> exn + (string \<times> json) list" where
  \<comment> \<open>\<^verbatim>\<open>x.items()\<close>\<close>
  "py_items (JObj kvs) = Inr kvs"
| "py_items _ = Inl AttributeError"

definition stats_fields :: "string list" where
  "stats_fields = [''total_primes'', ''total_candidates'', ''total_time'', ''avg_gap'',
     ''max_gap'', ''min_gap'', ''primes_per_second'', ''cache_hits'', ''cache_size'']"

definition set_field :: "string \<Rightarrow> json \<Rightarrow> PrimeStats \<Rightarrow> PrimeStats" where
  \<comment> \<open>\<^verbatim>\<open>setattr(self.stats, key, value)\<close> for a key that names a field of the dataclass.\<close>
  "set_field k v st =
     (if k = ''total_primes'' then st\<lparr>total_primes := v\<rparr>
      else if k = ''total_candidates'' then st\<lparr>total_candidates := v\<rparr>
      else if k = ''total_time'' then st\<lparr>total_time := v\<rparr>
      else if k = ''avg_gap'' then st\<lparr>avg_gap := v\<rparr>
      else if k = ''max_gap'' then st\<lparr>max_gap := v\<rparr>
      else if k = ''min_gap'' then st\<lparr>min_gap := v\<rparr>
      else if k = ''primes_per_second'' then st\<lparr>primes_per_second := v\<rparr>
      else if k = ''cache_hits'' then st\<lparr>cache_hits := v\<rparr>
      else if k = ''cache_size'' then st\<lparr>cache_size := v\<rparr>
      else st)"

definition asdict :: "PrimeStats \<Rightarrow> (string \<times> json) list" where
  \<comment> \<open>\<^verbatim>\<open>asdict(self.stats)\<close>: the fields by name.\<close>
  "asdict st =
     [(''total_primes'', total_primes st), (''total_candidates'', total_candidates st),
      (''total_time'', total_time st), (''avg_gap'', avg_gap st), (''max_gap'', max_gap st),
      (''min_gap'', min_gap st), (''primes_per_second'', primes_per_second st),
      (''cache_hits'', cache_hits st), (''cache_size'', cache_size st)]"

definition instance_dict :: "(string \<times> json) list \<Rightarrow> PrimeStats" where
  \<comment> \<open>The fields of an instance whose attribute dictionary is \<open>d\<close>: the entry of \<open>d\<close>
      under the name of the field, and the default of the class where \<open>d\<close> has none.\<close>
  "instance_dict d =
     foldl (\<lambda>st k. case map_of d k of None \<Rightarrow> st | Some v \<Rightarrow> set_field k v st)
       PrimeStats_init stats_fields"

definition setattr_stats :: "string \<Rightarrow> json \<Rightarrow> PrimeStats \<Rightarrow> exn + PrimeStats" where
  \<comment> \<open>\<^verbatim>\<open>if hasattr(self.stats, key): setattr(self.stats, key, value)\<close>. A key that names a
      field sets it. Every instance also has \<^verbatim>\<open>__class__\<close>, which accepts only a class,
      \<^verbatim>\<open>__weakref__\<close>, which cannot be written, and \<^verbatim>\<open>__dict__\<close>, which accepts only a
      dictionary and then replaces all the attributes of the instance; no value of a
      JSON file is a class. Any other key names no attribute and is skipped, or names a
      method or an attribute of the class (such as \<^verbatim>\<open>__doc__\<close>): then the assignment
      stores an attribute of the instance beside the fields, which stay as they are.\<close>
  "setattr_stats k v st =
     (if k \<in> set stats_fields then Inr (set_field k v st)
      else if k = ''__class__'' then Inl TypeError
      else if k = ''__weakref__'' then Inl AttributeError
      else if k = ''__dict__'' then
        (case v of JObj d \<Rightarrow> Inr (instance_dict d) | _ \<Rightarrow> Inl TypeError)
      else Inr st)"

fun restore_stats :: "(string \<times> json) list \<Rightarrow> PrimeStats \<Rightarrow> exn option \<times> PrimeStats" where
  \<comment> \<open>The \<^verbatim>\<open>for key, value in data['stats'].items()\<close> loop: the exception that ends it, if
      any, and the statistics as they are then; the assignments made before stay.\<close>
  "restore_stats [] st = (None, st)"
| "restore_stats (kv # kvs) st =
     (case setattr_stats (fst kv) (snd kv) st of
        Inl x \<Rightarrow> (Some x, st)
      | Inr st' \<Rightarrow> restore_stats kvs st')"

definition dict_lookup :: "json \<Rightarrow> string \<Rightarrow> json option" where
  \<comment> \<open>\<^verbatim>\<open>data[key]\<close> where \<^verbatim>\<open>key in data\<close>, for a dictionary.\<close>
  "dict_lookup data k = (case data of JObj kvs \<Rightarrow> map_of kvs k | _ \<Rightarrow> None)"

definition load_extended :: "json \<Rightarrow> engine \<Rightarrow> exn option \<times> engine" where
  \<comment> \<open>The \<^verbatim>\<open>else\<close> branch of the \<^verbatim>\<open>try\<close> block: the extended format with metadata. The
      result is the exception raised, if any, and the engine as it is at that moment.\<close>
  "load_extended data e =
     (case dict_get data ''codes'' (JList []) of
        Inl x \<Rightarrow> (Some x, e)
      | Inr codes \<Rightarrow>
          (case py_set codes of
             Inl x \<Rightarrow> (Some x, e)
           | Inr s \<Rightarrow>
               (let e1 = e\<lparr>code_db := s\<rparr> in
                case dict_lookup data ''stats'' of
                  None \<Rightarrow> (None, e1)
                | Some sv \<Rightarrow>
                    (case py_items sv of
                       Inl x \<Rightarrow> (Some x, e1)
                     | Inr items \<Rightarrow>
                         (case restore_stats items (stats e1) of
                            (x, st) \<Rightarrow> (x, e1\<lparr>stats := st\<rparr>))))))"

definition load_body :: "file_state \<Rightarrow> engine \<Rightarrow> exn option \<times> engine" where
  \<comment> \<open>The \<^verbatim>\<open>try\<close> block of \<^verbatim>\<open>_load_database\<close>.\<close>
  "load_body fs e =
     (case fs of
        Missing \<Rightarrow> (None, e)
      | Unreadable \<Rightarrow> (Some OSError, e)
      | Malformed \<Rightarrow> (Some JSONDecodeError, e)
      | Content data \<Rightarrow>
          (case data of
             JList xs \<Rightarrow>
               (case py_set data of
                  Inl x \<Rightarrow> (Some x, e)
                | Inr s \<Rightarrow> (None, e\<lparr>code_db := s\<rparr>))
           | _ \<Rightarrow> load_extended data e))"

definition load_database :: "file_state \<Rightarrow> engine \<Rightarrow> exn + engine" where
  \<comment> \<open>\<^verbatim>\<open>_load_database\<close>: the \<^verbatim>\<open>except Exception\<close> handler logs the exception and resets
      the registry; nothing is raised again.\<close>
  "load_database fs e =
     (case load_body fs e of
        (None, e') \<Rightarrow> Inr e'
      | (Some x, e') \<Rightarrow> Inr (e'\<lparr>code_db := {}\<rparr>))"

text \<open>
  The argument of the constructor. \<^verbatim>\<open>config or {}\<close> takes \<^verbatim>\<open>None\<close> and every other false
  value for the empty dictionary; a true value that is no dictionary has no \<^verbatim>\<open>get\<close>. The
  value under \<^verbatim>\<open>db_file\<close> is a string (or another path), which \<^verbatim>\<open>Path\<close> accepts, or
  something else. The three numbers are integers, as the arithmetic of the engine expects
  them; the constructor stores them as they are.
\<close>

datatype path_arg = PathStr string | NotPath

record config =
  cfg_db_file :: "path_arg option"
  cfg_cache_size :: "int option"
  cfg_save_interval :: "int option"
  cfg_progress_interval :: "int option"

datatype config_arg = NoConfig | NotDict | Dict config

definition config_get :: "'a option \<Rightarrow> 'a \<Rightarrow> 'a" where
  \<comment> \<open>\<^verbatim>\<open>self.config.get(key, default)\<close>; \<open>None\<close> is a key that the dictionary lacks.\<close>
  "config_get v dflt = (case v of None \<Rightarrow> dflt | Some x \<Rightarrow> x)"

definition default_config :: config where
  \<comment> \<open>The empty dictionary.\<close>
  "default_config =
     \<lparr>cfg_db_file = None, cfg_cache_size = None, cfg_save_interval = None,
      cfg_progress_interval = None\<rparr>"

definition py_Path :: "path_arg \<Rightarrow> exn + string" where
  \<comment> \<open>\<^verbatim>\<open>Path(x)\<close>\<close>
  "py_Path x = (case x of PathStr s \<Rightarrow> Inr s | NotPath \<Rightarrow> Inl TypeError)"

definition blank_engine :: "config \<Rightarrow> PrimeCache \<Rightarrow> engine" where
  \<comment> \<open>The fields as \<^verbatim>\<open>__init__\<close> sets them before it loads the database.\<close>
  "blank_engine cfg c =
     \<lparr>ecache = c, stats = PrimeStats_init, code_db = {}, running = True,
      save_interval = config_get (cfg_save_interval cfg) 1000,
      progress_interval = config_get (cfg_progress_interval cfg) 100,
      flushes = []\<rparr>"

definition BinaryPrimeEngine_init :: "config_arg \<Rightarrow> file_state \<Rightarrow> bool \<Rightarrow> exn + engine" where
  \<comment> \<open>\<^verbatim>\<open>BinaryPrimeEngine.__init__(config)\<close>. The second argument is the file at
      \<^verbatim>\<open>db_file\<close>, the third whether the call is made on the main thread:
      \<^verbatim>\<open>signal.signal\<close> raises \<^verbatim>\<open>ValueError\<close> on any other.\<close>
  "BinaryPrimeEngine_init arg fs main_thread =
     (case arg of
        NotDict \<Rightarrow> Inl AttributeError
      | _ \<Rightarrow>
          (let cfg = (case arg of Dict c \<Rightarrow> c | _ \<Rightarrow> default_config) in
           case py_Path (config_get (cfg_db_file cfg) (PathStr ''binary_codes.json'')) of
             Inl x \<Rightarrow> Inl x
           | Inr p \<Rightarrow>
               (case PrimeCache_init (config_get (cfg_cache_size cfg) 10000) of
                  Inl x \<Rightarrow> Inl x
                | Inr c \<Rightarrow>
                    (case load_database fs (blank_engine cfg c) of
                       Inl x \<Rightarrow> Inl x
                     | Inr e \<Rightarrow> if main_thread then Inr e else Inl ValueError))))"

definition same_but_loaded :: "engine \<Rightarrow> engine \<Rightarrow> bool" where
  \<comment> \<open>Two engine states that differ at most in the registry and the statistics.\<close>
  "same_but_loaded e e' \<longleftrightarrow>
     ecache e' = ecache e \<and> running e' = running e \<and> save_interval e' = save_interval e \<and>
     progress_interval e' = progress_interval e \<and> flushes e' = flushes e"

lemma load_extended_frame:
  assumes "load_extended data e = (x, e')"
  shows "e'\<lparr>code_db := {}, stats := PrimeStats_init\<rparr> = e\<lparr>code_db := {}, stats := PrimeStats_init\<rparr>"
  using assms
  by (auto simp: load_extended_def Let_def split: sum.splits option.splits prod.splits)

lemma load_body_frame:
  assumes "load_body fs e = (x, e')"
  shows "\<exists>s st. e' = e\<lparr>code_db := s, stats := st\<rparr>"
proof -
  have "e'\<lparr>code_db := {}, stats := PrimeStats_init\<rparr> =
      e\<lparr>code_db := {}, stats := PrimeStats_init\<rparr>"
  proof (cases fs)
    case (Content data)
    show ?thesis
    proof (cases "\<exists>xs. data = JList xs")
      case True
      with assms Content show ?thesis
        by (auto simp: load_body_def split: if_splits)
    next
      case False
      with assms Content have "load_extended data e = (x, e')"
        by (cases data) (simp_all add: load_body_def)
      then show ?thesis by (rule load_extended_frame)
    qed
  qed (use assms in \<open>auto simp: load_body_def\<close>)
  then have "e' = e\<lparr>code_db := code_db e', stats := stats e'\<rparr>"
    by (cases e, cases e') simp
  then show ?thesis by blast
qed

lemma load_database_total:
  "\<exists>e'. load_database fs e = Inr e' \<and> same_but_loaded e e'"
proof (cases "load_body fs e")
  case (Pair x e1)
  from load_body_frame [OF Pair] obtain s st where "e1 = e\<lparr>code_db := s, stats := st\<rparr>"
    by blast
  with Pair show ?thesis
    by (cases x) (simp_all add: load_database_def same_but_loaded_def)
qed

lemma load_database_failure:
  assumes "load_body fs e = (Some x, e1)"
  shows "\<exists>st. load_database fs e = Inr (e\<lparr>code_db := {}, stats := st\<rparr>)"
proof -
  from load_body_frame [OF assms] obtain s st where "e1 = e\<lparr>code_db := s, stats := st\<rparr>"
    by blast
  with assms have "load_database fs e = Inr (e\<lparr>code_db := {}, stats := st\<rparr>)"
    by (simp add: load_database_def)
  then show ?thesis by blast
qed

lemma asdict_set_field:
  assumes "f \<in> set stats_fields"
  shows "map_of (asdict (set_field k v st)) f = (if f = k then Some v else map_of (asdict st) f)"
  using assms by (auto simp: stats_fields_def asdict_def set_field_def)

lemma restore_stats_plain:
  assumes "fst ` set items \<inter> {''__class__'', ''__weakref__'', ''__dict__''} = {}"
    and "f \<in> set stats_fields"
  shows "\<exists>st'. restore_stats items st = (None, st') \<and>
           map_of (asdict st') f =
             (case map_of (rev items) f of Some v \<Rightarrow> Some v | None \<Rightarrow> map_of (asdict st) f)"
  using assms(1)
proof (induction items arbitrary: st)
  case Nil
  show ?case by simp
next
  case (Cons kv items)
  obtain k v where kv: "kv = (k, v)" by (cases kv)
  from Cons.prems kv have k: "k \<noteq> ''__class__''" "k \<noteq> ''__weakref__''" "k \<noteq> ''__dict__''"
    and rest: "fst ` set items \<inter> {''__class__'', ''__weakref__'', ''__dict__''} = {}"
    by auto
  define st1 where "st1 = (if k \<in> set stats_fields then set_field k v st else st)"
  from k have sa: "setattr_stats k v st = Inr st1" by (simp add: setattr_stats_def st1_def)
  have m1: "map_of (asdict st1) f = (if f = k then Some v else map_of (asdict st) f)"
  proof (cases "k \<in> set stats_fields")
    case True
    with asdict_set_field [OF assms(2), of k v st] show ?thesis by (simp add: st1_def)
  next
    case False
    with assms(2) have "f \<noteq> k" by auto
    with False show ?thesis by (simp add: st1_def)
  qed
  from Cons.IH [OF rest, of st1] obtain st' where
    st': "restore_stats items st1 = (None, st')"
      "map_of (asdict st') f =
         (case map_of (rev items) f of Some v \<Rightarrow> Some v | None \<Rightarrow> map_of (asdict st1) f)"
    by blast
  from sa st'(1) kv have run: "restore_stats (kv # items) st = (None, st')" by simp
  have "map_of (rev (kv # items)) f =
      (case map_of (rev items) f of Some w \<Rightarrow> Some w | None \<Rightarrow> if f = k then Some v else None)"
    by (simp add: kv map_add_def split: option.splits)
  note rv = this
  have "map_of (asdict st') f =
      (case map_of (rev (kv # items)) f of Some v \<Rightarrow> Some v | None \<Rightarrow> map_of (asdict st) f)"
  proof (cases "map_of (rev items) f")
    case None
    with st'(2) m1 rv show ?thesis by simp
  next
    case (Some w)
    with st'(2) rv show ?thesis by simp
  qed
  with run show ?case by blast
qed

lemma restore_stats_plain_all:
  assumes "fst ` set items \<inter> {''__class__'', ''__weakref__'', ''__dict__''} = {}"
  shows "\<exists>st'. restore_stats items st = (None, st') \<and>
           (\<forall>f \<in> set stats_fields. map_of (asdict st') f =
              (case map_of (rev items) f of Some v \<Rightarrow> Some v | None \<Rightarrow> map_of (asdict st) f))"
proof -
  obtain x st0 where r: "restore_stats items st = (x, st0)" by (cases "restore_stats items st")
  have "x = None \<and> map_of (asdict st0) f =
      (case map_of (rev items) f of Some v \<Rightarrow> Some v | None \<Rightarrow> map_of (asdict st) f)"
    if "f \<in> set stats_fields" for f
    using restore_stats_plain [OF assms that, of st] r by auto
  moreover have "''total_primes'' \<in> set stats_fields" by (simp add: stats_fields_def)
  ultimately have "x = None" and "\<forall>f \<in> set stats_fields. map_of (asdict st0) f =
      (case map_of (rev items) f of Some v \<Rightarrow> Some v | None \<Rightarrow> map_of (asdict st) f)"
    by blast+
  with r show ?thesis by blast
qed

lemma load_extended_run:
  assumes "list_all hashable xs" and "map_of kvs ''codes'' = Some (JList xs)"
    and "map_of kvs ''stats'' = Some (JObj items)"
    and "restore_stats items (stats e) = (x, st)"
  shows "load_body (Content (JObj kvs)) e = (x, e\<lparr>code_db := py_key ` set xs, stats := st\<rparr>)"
  using assms by (simp add: load_body_def load_extended_def dict_lookup_def Let_def)

lemma py_items_Inr: "py_items v = Inr its \<Longrightarrow> v = JObj its"
  by (cases v) simp_all

lemma load_body_partial:
  assumes "load_body fs e = (Some x, e1)"
  shows "stats e1 = stats e \<or>
         (\<exists>kvs items. fs = Content (JObj kvs) \<and> map_of kvs ''stats'' = Some (JObj items) \<and>
            restore_stats items (stats e) = (Some x, stats e1))"
proof (cases fs)
  case (Content data)
  show ?thesis
  proof (cases data)
    case (JObj kvs)
    with assms Content have le: "load_extended (JObj kvs) e = (Some x, e1)"
      by (simp add: load_body_def)
    show ?thesis
    proof (cases "\<exists>items. map_of kvs ''stats'' = Some (JObj items)")
      case True
      then obtain items where it: "map_of kvs ''stats'' = Some (JObj items)" by blast
      obtain y st where r: "restore_stats items (stats e) = (y, st)"
        by (cases "restore_stats items (stats e)")
      from le it r have "stats e1 = stats e \<or> (y = Some x \<and> stats e1 = st)"
        by (auto simp: load_extended_def dict_lookup_def Let_def split: sum.splits)
      with r it Content JObj show ?thesis by auto
    next
      case False
      with le have "stats e1 = stats e"
        by (auto simp: load_extended_def dict_lookup_def Let_def
            split: sum.splits option.splits dest: py_items_Inr)
      then show ?thesis by simp
    qed
  next
    case (JList xs)
    with assms Content show ?thesis by (auto simp: load_body_def split: if_splits)
  qed (use assms Content in \<open>auto simp: load_body_def load_extended_def\<close>)
qed (use assms in \<open>auto simp: load_body_def\<close>)

text \<open>
  C7. Loading never raises: for every state of the file the result is an engine, which
  differs from the engine before at most in the registry and the statistics. Without a
  file nothing changes. When the file cannot be read or parsed, the engine is left as it
  was but for an empty registry: no statistic is restored. Whenever anything in the
  \<^verbatim>\<open>try\<close> block raises, the registry is empty afterwards, and the statistics are as before
  unless the exception came out of the loop that restores them, which keeps what it had
  assigned. A bare list of hashable values (the composite encodings are strings) becomes
  the registry, the statistics untouched. A dictionary with a list under \<^verbatim>\<open>codes\<close> and a
  dictionary under \<^verbatim>\<open>stats\<close> that has none of the keys \<^verbatim>\<open>__class__\<close>, \<^verbatim>\<open>__weakref__\<close>,
  \<^verbatim>\<open>__dict__\<close> gives the registry and the statistics, where each field has the value
  stored under its name, or its old value if there is none.
\<close>

theorem load_database_tolerant:
  "(\<exists>e'. load_database fs e = Inr e' \<and> same_but_loaded e e') \<and>
   load_database Missing e = Inr e \<and>
   load_database Unreadable e = Inr (e\<lparr>code_db := {}\<rparr>) \<and>
   load_database Malformed e = Inr (e\<lparr>code_db := {}\<rparr>) \<and>
   (\<forall>x e1. load_body fs e = (Some x, e1) \<longrightarrow>
      load_database fs e = Inr (e\<lparr>code_db := {}, stats := stats e1\<rparr>) \<and>
      (stats e1 = stats e \<or>
       (\<exists>kvs items. fs = Content (JObj kvs) \<and> map_of kvs ''stats'' = Some (JObj items) \<and>
          restore_stats items (stats e) = (Some x, stats e1)))) \<and>
   (list_all hashable xs \<longrightarrow>
      load_database (Content (JList xs)) e = Inr (e\<lparr>code_db := py_key ` set xs\<rparr>)) \<and>
   (list_all hashable xs \<and> map_of kvs ''codes'' = Some (JList xs) \<and>
    map_of kvs ''stats'' = Some (JObj items) \<and>
    fst ` set items \<inter> {''__class__'', ''__weakref__'', ''__dict__''} = {} \<longrightarrow>
      (\<exists>st. load_database (Content (JObj kvs)) e =
           Inr (e\<lparr>code_db := py_key ` set xs, stats := st\<rparr>) \<and>
         (\<forall>f \<in> set stats_fields. map_of (asdict st) f =
            (case map_of (rev items) f of Some v \<Rightarrow> Some v
             | None \<Rightarrow> map_of (asdict (stats e)) f))))"
proof (intro conjI allI impI)
  show "\<exists>e'. load_database fs e = Inr e' \<and> same_but_loaded e e'" by (rule load_database_total)
next
  show "load_database Missing e = Inr e" by (simp add: load_database_def load_body_def)
next
  show "load_database Unreadable e = Inr (e\<lparr>code_db := {}\<rparr>)"
    by (simp add: load_database_def load_body_def)
next
  show "load_database Malformed e = Inr (e\<lparr>code_db := {}\<rparr>)"
    by (simp add: load_database_def load_body_def)
next
  fix x e1
  assume a: "load_body fs e = (Some x, e1)"
  from load_body_frame [OF a] obtain s st where "e1 = e\<lparr>code_db := s, stats := st\<rparr>" by blast
  with a show "load_database fs e = Inr (e\<lparr>code_db := {}, stats := stats e1\<rparr>)"
    by (simp add: load_database_def)
  from a show "stats e1 = stats e \<or>
      (\<exists>kvs items. fs = Content (JObj kvs) \<and> map_of kvs ''stats'' = Some (JObj items) \<and>
         restore_stats items (stats e) = (Some x, stats e1))"
    by (rule load_body_partial)
next
  assume "list_all hashable xs"
  then show "load_database (Content (JList xs)) e = Inr (e\<lparr>code_db := py_key ` set xs\<rparr>)"
    by (simp add: load_database_def load_body_def)
next
  assume a: "list_all hashable xs \<and> map_of kvs ''codes'' = Some (JList xs) \<and>
    map_of kvs ''stats'' = Some (JObj items) \<and>
    fst ` set items \<inter> {''__class__'', ''__weakref__'', ''__dict__''} = {}"
  then have plain: "fst ` set items \<inter> {''__class__'', ''__weakref__'', ''__dict__''} = {}"
    by simp
  from restore_stats_plain_all [OF plain, of "stats e"] obtain st where
    st: "restore_stats items (stats e) = (None, st)"
      "\<forall>f \<in> set stats_fields. map_of (asdict st) f =
         (case map_of (rev items) f of Some v \<Rightarrow> Some v | None \<Rightarrow> map_of (asdict (stats e)) f)"
    by blast
  from a st(1) have "load_body (Content (JObj kvs)) e =
      (None, e\<lparr>code_db := py_key ` set xs, stats := st\<rparr>)"
    by (intro load_extended_run) simp_all
  then have "load_database (Content (JObj kvs)) e =
      Inr (e\<lparr>code_db := py_key ` set xs, stats := st\<rparr>)"
    by (simp add: load_database_def)
  with st(2) show "\<exists>st. load_database (Content (JObj kvs)) e =
        Inr (e\<lparr>code_db := py_key ` set xs, stats := st\<rparr>) \<and>
      (\<forall>f \<in> set stats_fields. map_of (asdict st) f =
         (case map_of (rev items) f of Some v \<Rightarrow> Some v
          | None \<Rightarrow> map_of (asdict (stats e)) f))"
    by blast
qed

theorem load_database_tolerant_witness:
  "load_body (Content (JObj [(''codes'', JList [JStr ''00001001'']), (''stats'', JList [])]))
      (blank_engine default_config \<lparr>max_size = 10000, cache = [], access_order = []\<rparr>) =
     (Some AttributeError,
      (blank_engine default_config \<lparr>max_size = 10000, cache = [], access_order = []\<rparr>)
        \<lparr>code_db := {JStr ''00001001''}\<rparr>) \<and>
   load_database (Content (JObj [(''codes'', JList [JStr ''00001001'']), (''stats'', JList [])]))
      (blank_engine default_config \<lparr>max_size = 10000, cache = [], access_order = []\<rparr>) =
     Inr ((blank_engine default_config \<lparr>max_size = 10000, cache = [], access_order = []\<rparr>)
        \<lparr>code_db := {}\<rparr>) \<and>
   load_database
      (Content (JObj [(''codes'', JList [JStr ''00001001'']),
         (''stats'', JObj [(''total_primes'', JInt 7), (''__class__'', JInt 1),
            (''avg_gap'', JFloat 2)])]))
      (blank_engine default_config \<lparr>max_size = 10000, cache = [], access_order = []\<rparr>) =
     Inr ((blank_engine default_config \<lparr>max_size = 10000, cache = [], access_order = []\<rparr>)
        \<lparr>code_db := {}, stats := PrimeStats_init\<lparr>total_primes := JInt 7\<rparr>\<rparr>) \<and>
   list_all hashable [JStr ''00001001'', JStr ''00001111''] \<and>
   load_database (Content (JList [JStr ''00001001'', JStr ''00001111'']))
      (blank_engine default_config \<lparr>max_size = 10000, cache = [], access_order = []\<rparr>) =
     Inr ((blank_engine default_config \<lparr>max_size = 10000, cache = [], access_order = []\<rparr>)
        \<lparr>code_db := {JStr ''00001001'', JStr ''00001111''}\<rparr>) \<and>
   load_database
      (Content (JObj [(''codes'', JList [JStr ''00001001'', JStr ''00001111'']),
         (''stats'', JObj [(''total_primes'', JInt 7), (''avg_gap'', JFloat 2)]),
         (''version'', JStr ''2.0'')]))
      (blank_engine default_config \<lparr>max_size = 10000, cache = [], access_order = []\<rparr>) =
     Inr ((blank_engine default_config \<lparr>max_size = 10000, cache = [], access_order = []\<rparr>)
        \<lparr>code_db := {JStr ''00001001'', JStr ''00001111''},
         stats := PrimeStats_init\<lparr>total_primes := JInt 7, avg_gap := JFloat 2\<rparr>\<rparr>)"
proof -
  let ?e = "blank_engine default_config \<lparr>max_size = 10000, cache = [], access_order = []\<rparr>"
  let ?bad = "Content (JObj [(''codes'', JList [JStr ''00001001'']), (''stats'', JList [])])"
  let ?cls = "Content (JObj [(''codes'', JList [JStr ''00001001'']),
      (''stats'', JObj [(''total_primes'', JInt 7), (''__class__'', JInt 1),
         (''avg_gap'', JFloat 2)])])"
  note defs = load_body_def load_extended_def dict_lookup_def Let_def setattr_stats_def
    stats_fields_def set_field_def
  have b1: "load_body ?bad ?e = (Some AttributeError, ?e\<lparr>code_db := {JStr ''00001001''}\<rparr>)"
    by (simp add: defs)
  have b2: "load_body ?cls ?e = (Some TypeError,
      ?e\<lparr>code_db := {JStr ''00001001''}, stats := (stats ?e)\<lparr>total_primes := JInt 7\<rparr>\<rparr>)"
    by (simp add: defs)
  have st: "stats ?e = PrimeStats_init" by (simp add: blank_engine_def)
  from load_database_tolerant [of ?bad ?e] b1
  have r1: "load_database ?bad ?e = Inr (?e\<lparr>code_db := {}\<rparr>)" by simp
  from load_database_tolerant [of ?cls ?e] b2
  have r2: "load_database ?cls ?e =
      Inr (?e\<lparr>code_db := {}, stats := PrimeStats_init\<lparr>total_primes := JInt 7\<rparr>\<rparr>)"
    by (simp add: st)
  have r3: "load_database (Content (JList [JStr ''00001001'', JStr ''00001111''])) ?e =
      Inr (?e\<lparr>code_db := {JStr ''00001001'', JStr ''00001111''}\<rparr>)"
    by (simp add: load_database_def defs)
  have r4: "load_database
      (Content (JObj [(''codes'', JList [JStr ''00001001'', JStr ''00001111'']),
         (''stats'', JObj [(''total_primes'', JInt 7), (''avg_gap'', JFloat 2)]),
         (''version'', JStr ''2.0'')])) ?e =
      Inr (?e\<lparr>code_db := {JStr ''00001001'', JStr ''00001111''},
        stats := PrimeStats_init\<lparr>total_primes := JInt 7, avg_gap := JFloat 2\<rparr>\<rparr>)"
    by (simp add: load_database_def defs st)
  from b1 r1 r2 r3 r4 show ?thesis by simp
qed

section \<open>The primality test\<close>

lemma trial_divisor_char:
  "trial_divisor n \<longleftrightarrow>
     (\<exists>d. (d \<in> set small_primes \<or> (\<exists>k. 0 \<le> k \<and> d = 37 + 2 * k)) \<and>
          d < floor_sqrt n + 1 \<and> n mod d = 0)"
proof -
  have s: "sorted small_primes" by (simp add: small_primes_def)
  have "odd_divisor_from n (floor_sqrt n + 1) 37 \<longleftrightarrow>
      (\<exists>d. (\<exists>k. 0 \<le> k \<and> d = 37 + 2 * k) \<and> d < floor_sqrt n + 1 \<and> n mod d = 0)"
    unfolding odd_divisor_from_def by auto
  then show ?thesis
    unfolding trial_divisor_def small_prime_loop_iff [OF s] odd_divisor_loop_iff by auto
qed

lemma is_prime_fast:
  assumes "n < 3 \<or> n mod 2 = 0"
  shows "is_prime_optimized e n = Inr (prime_ref n, e)"
proof -
  consider (small) "n < 2" | (two) "n = 2" | (even) "2 < n" "n mod 2 = 0"
    using assms by (cases "n < 2"; cases "n = 2") auto
  then show ?thesis
  proof cases
    case small
    with prime_ref_small [OF small] show ?thesis by (simp add: is_prime_optimized_def)
  next
    case two
    with prime_ref_two show ?thesis by (simp add: is_prime_optimized_def)
  next
    case even
    with prime_ref_even [OF even] show ?thesis by (simp add: is_prime_optimized_def)
  qed
qed

lemma put_member:
  assumes "max_size c \<noteq> 0" "PrimeCache_put c n v = Inr c'"
  shows "n \<in> dict_keys (cache c')"
  using assms by (auto simp: PrimeCache_put_def dict_keys_update split: sum.splits)

lemma put_disabled:
  assumes "max_size c = 0"
  shows "PrimeCache_put c n v = Inr c"
  using assms by (simp add: PrimeCache_put_def)

lemma get_miss:
  assumes "n \<notin> dict_keys (cache c)"
  shows "PrimeCache_get c n = Inr (None, c)"
  using assms by (simp add: PrimeCache_get_def)

lemma is_prime_miss:
  assumes "3 \<le> n" "n mod 2 \<noteq> 0" "n \<notin> dict_keys (cache (ecache e))"
    and "is_prime_optimized e n = Inr (b, e')"
  shows "b = (\<not> trial_divisor n) \<and> stats e' = stats e \<and>
     (max_size (ecache e) \<noteq> 0 \<longrightarrow> n \<in> dict_keys (cache (ecache e'))) \<and>
     (max_size (ecache e) = 0 \<longrightarrow> ecache e' = ecache e)"
proof -
  from assms(1,2) have guards: "\<not> n < 2" "n \<noteq> 2" "n mod 2 \<noteq> 0" by simp_all
  from get_miss [OF assms(3)] have get: "PrimeCache_get (ecache e) n = Inr (None, ecache e)" .
  note unf = miss_unfold [OF guards get]
  show ?thesis
  proof (cases "trial_divisor n")
    case True
    with unf assms(4) have rc: "record_composite e n = Inr (b, e')" by simp
    then obtain c s where c: "PrimeCache_put (ecache e) n False = Inr c"
      and e': "e' = e\<lparr>ecache := c, code_db := insert (JStr s) (code_db e)\<rparr>" and b: "b = False"
      by (auto simp: record_composite_def split: sum.splits)
    from put_member [OF _ c] put_disabled [of "ecache e" n False] c e' b True
    show ?thesis by auto
  next
    case False
    with unf assms(4) obtain c where c: "PrimeCache_put (ecache e) n True = Inr c"
      and e': "e' = e\<lparr>ecache := c\<rparr>" and b: "b = True"
      by (auto split: sum.splits)
    from put_member [OF _ c] put_disabled [of "ecache e" n True] c e' b False
    show ?thesis by auto
  qed
qed

lemma is_prime_hit:
  assumes "engine_ok e" "3 \<le> n" "n mod 2 \<noteq> 0" "n \<in> dict_keys (cache (ecache e))"
    and "cache_hits (stats e) = JInt h"
  shows "\<exists>e'. is_prime_optimized e n = Inr (prime_ref n, e') \<and>
           cache_hits (stats e') = JInt (h + 1) \<and> cache (ecache e') = cache (ecache e)"
proof -
  from assms(1) have inv: "cache_inv (ecache e)" and snd: "cache_sound (ecache e)"
    by (simp_all add: engine_ok_def)
  from assms(2,3) have guards: "\<not> n < 2" "n \<noteq> 2" "n mod 2 \<noteq> 0" by simp_all
  from get_inv [OF inv, of n] obtain c where
    c: "PrimeCache_get (ecache e) n = Inr (map_of (cache (ecache e)) n, c)"
      "cache c = cache (ecache e)"
    by blast
  from assms(4) obtain v where v: "map_of (cache (ecache e)) n = Some v"
    by (cases "map_of (cache (ecache e)) n")
      (auto simp: dict_keys_def map_of_eq_None_iff)
  then have "(n, v) \<in> set (cache (ecache e))" by (rule map_of_SomeD)
  with snd have pv: "v = prime_ref n" unfolding cache_sound_def by blast
  from c(1) v have "PrimeCache_get (ecache e) n = Inr (Some v, c)" by simp
  from hit_unfold [OF guards this] assms(5) c(2) pv show ?thesis
    by (simp add: py_add_int_def)
qed

text \<open>
  C1. In every engine state whose cache is well formed and holds true verdicts, and for
  every \<open>n\<close> from 0 to \<open>10^6\<close>, \<^verbatim>\<open>is_prime_optimized\<close> returns the reference primality of
  \<open>n\<close> and leaves such a state. The fast paths answer without the cache: false below 2,
  true at 2, false at an even number above 2. On a cache miss for an odd \<open>n \<ge> 3\<close> the
  verdict is that no divisor is found among the small primes 3 to 31 and the odd numbers
  from 37 on, all below \<open>floor_sqrt n + 1\<close>.
\<close>

theorem is_prime_optimized_correct:
  assumes "engine_ok e" and "0 \<le> n" and "n \<le> 1000000"
  shows "(\<exists>e'. is_prime_optimized e n = Inr (prime_ref n, e') \<and> engine_ok e') \<and>
         (n < 2 \<longrightarrow> is_prime_optimized e n = Inr (False, e)) \<and>
         (n = 2 \<longrightarrow> is_prime_optimized e n = Inr (True, e)) \<and>
         (2 < n \<and> n mod 2 = 0 \<longrightarrow> is_prime_optimized e n = Inr (False, e)) \<and>
         (3 \<le> n \<and> n mod 2 \<noteq> 0 \<and> n \<notin> dict_keys (cache (ecache e)) \<longrightarrow>
            (\<exists>e'. is_prime_optimized e n =
               Inr (\<not> (\<exists>d. (d \<in> set small_primes \<or> (\<exists>k. 0 \<le> k \<and> d = 37 + 2 * k)) \<and>
                          d < floor_sqrt n + 1 \<and> n mod d = 0), e')))"
proof (intro conjI impI)
  from is_prime_optimized_sound [OF assms(1), of n]
  show "\<exists>e'. is_prime_optimized e n = Inr (prime_ref n, e') \<and> engine_ok e'" by blast
next
  assume "n < 2"
  then show "is_prime_optimized e n = Inr (False, e)" by (simp add: is_prime_optimized_def)
next
  assume "n = 2"
  then show "is_prime_optimized e n = Inr (True, e)" by (simp add: is_prime_optimized_def)
next
  assume "2 < n \<and> n mod 2 = 0"
  then show "is_prime_optimized e n = Inr (False, e)" by (simp add: is_prime_optimized_def)
next
  assume a: "3 \<le> n \<and> n mod 2 \<noteq> 0 \<and> n \<notin> dict_keys (cache (ecache e))"
  from is_prime_optimized_sound [OF assms(1), of n] obtain e' where
    e': "is_prime_optimized e n = Inr (prime_ref n, e')" by blast
  from a have "3 \<le> n" "n mod 2 \<noteq> 0" "n \<notin> dict_keys (cache (ecache e))" by simp_all
  from is_prime_miss [OF this e'] have "prime_ref n = (\<not> trial_divisor n)" by simp
  with e' show "\<exists>e'. is_prime_optimized e n =
      Inr (\<not> (\<exists>d. (d \<in> set small_primes \<or> (\<exists>k. 0 \<le> k \<and> d = 37 + 2 * k)) \<and>
                 d < floor_sqrt n + 1 \<and> n mod d = 0), e')"
    unfolding trial_divisor_char by (intro exI [of _ e']) simp
qed

theorem is_prime_optimized_correct_witness:
  "engine_ok (blank_engine default_config \<lparr>max_size = 10000, cache = [], access_order = []\<rparr>) \<and>
   (0::int) \<le> 91 \<and> (91::int) \<le> 1000000 \<and> \<not> prime_ref 91 \<and> (3::int) \<le> 91 \<and>
   (91::int) mod 2 \<noteq> 0 \<and>
   is_prime_optimized
     (blank_engine default_config \<lparr>max_size = 10000, cache = [], access_order = []\<rparr>) 91 =
     Inr (False,
       (blank_engine default_config \<lparr>max_size = 10000, cache = [], access_order = []\<rparr>)
         \<lparr>ecache := \<lparr>max_size = 10000, cache = [(91, False)], access_order = [91]\<rparr>,
          code_db := {JStr ''01011011''}\<rparr>)"
proof -
  let ?e = "blank_engine default_config \<lparr>max_size = 10000, cache = [], access_order = []\<rparr>"
  have ok: "engine_ok ?e"
    by (simp add: engine_ok_def blank_engine_def cache_inv_def cache_sound_def stats_ok_def
        PrimeStats_init_def is_int_def is_number_def dict_keys_def)
  have np: "\<not> prime_ref 91"
  proof -
    have "(7::int) \<in> {2..<91}" "(7::int) dvd 91" by simp_all
    then show ?thesis unfolding prime_ref_def by blast
  qed
  have run: "is_prime_optimized ?e 91 =
      Inr (False, ?e\<lparr>ecache := \<lparr>max_size = 10000, cache = [(91, False)], access_order = [91]\<rparr>,
                     code_db := {JStr ''01011011''}\<rparr>)"
    by code_simp
  from is_prime_optimized_correct [OF ok, of 91] ok np run show ?thesis by simp
qed

text \<open>
  C5, as the code has it, for \<open>n\<close> up to \<open>10^6\<close>, the range of the exhaustive check, in
  which \<^verbatim>\<open>int(math.sqrt(n))\<close> is the integer square root (from about \<open>2^1024\<close> on,
  \<^verbatim>\<open>math.sqrt\<close> raises \<^verbatim>\<open>OverflowError\<close> and there is no verdict). In a state with a
  well-formed cache of true verdicts, two consecutive calls return the same verdict, the
  primality of \<open>n\<close>. For an odd \<open>n \<ge> 3\<close>
  and a cache capacity other than 0 the second call is a cache hit and adds one to the
  hit counter. For \<open>n < 3\<close> and for even \<open>n\<close> the fast paths answer, and with capacity 0
  (an empty cache that stores nothing) every call computes again: the second call leaves
  the hit counter as it is.
\<close>

theorem is_prime_twice:
  assumes "engine_ok e" and "n \<le> 1000000"
  shows "\<exists>e1 e2 h. is_prime_optimized e n = Inr (prime_ref n, e1) \<and>
           is_prime_optimized e1 n = Inr (prime_ref n, e2) \<and>
           cache_hits (stats e1) = JInt h \<and>
           (3 \<le> n \<and> n mod 2 \<noteq> 0 \<and> max_size (ecache e) \<noteq> 0 \<longrightarrow>
              n \<in> dict_keys (cache (ecache e1)) \<and> cache_hits (stats e2) = JInt (h + 1)) \<and>
           (n < 3 \<or> n mod 2 = 0 \<or> (max_size (ecache e) = 0 \<and> cache (ecache e) = []) \<longrightarrow>
              cache_hits (stats e2) = JInt h)"
proof -
  from is_prime_optimized_sound [OF assms(1), of n] obtain e1 where
    e1: "is_prime_optimized e n = Inr (prime_ref n, e1)" "engine_ok e1" "same_but_cache e e1"
    by blast
  from is_prime_optimized_sound [OF e1(2), of n] obtain e2 where
    e2: "is_prime_optimized e1 n = Inr (prime_ref n, e2)" "engine_ok e2"
    by blast
  from e1(2) obtain h where h: "cache_hits (stats e1) = JInt h"
    unfolding engine_ok_def stats_ok_def by (elim conjE is_intE)
  from e1(3) have ms: "max_size (ecache e1) = max_size (ecache e)"
    by (simp add: same_but_cache_def)
  have hit: "n \<in> dict_keys (cache (ecache e1)) \<and> cache_hits (stats e2) = JInt (h + 1)"
    if a: "3 \<le> n \<and> n mod 2 \<noteq> 0 \<and> max_size (ecache e) \<noteq> 0"
  proof -
    from a have n3: "3 \<le> n" and od: "n mod 2 \<noteq> 0" and nz: "max_size (ecache e) \<noteq> 0"
      by simp_all
    have mem: "n \<in> dict_keys (cache (ecache e1))"
    proof (cases "n \<in> dict_keys (cache (ecache e))")
      case True
      from assms(1) obtain h0 where "cache_hits (stats e) = JInt h0"
        unfolding engine_ok_def stats_ok_def by (elim conjE is_intE)
      from is_prime_hit [OF assms(1) n3 od True this] e1(1) True show ?thesis by auto
    next
      case False
      from is_prime_miss [OF n3 od False e1(1)] nz show ?thesis by simp
    qed
    from is_prime_hit [OF e1(2) n3 od mem h] e2(1) mem show ?thesis by auto
  qed
  have nohit: "cache_hits (stats e2) = JInt h"
    if a: "n < 3 \<or> n mod 2 = 0 \<or> (max_size (ecache e) = 0 \<and> cache (ecache e) = [])"
  proof (cases "n < 3 \<or> n mod 2 = 0")
    case True
    from is_prime_fast [OF True, of e1] e2(1) h show ?thesis by simp
  next
    case False
    with a have n3: "3 \<le> n" and od: "n mod 2 \<noteq> 0" and z: "max_size (ecache e) = 0"
      and emp: "cache (ecache e) = []"
      by simp_all
    from emp have m0: "n \<notin> dict_keys (cache (ecache e))" by (simp add: dict_keys_def)
    from is_prime_miss [OF n3 od m0 e1(1)] z have c1: "ecache e1 = ecache e" by simp
    with m0 have m1: "n \<notin> dict_keys (cache (ecache e1))" by simp
    from is_prime_miss [OF n3 od m1 e2(1)] h show ?thesis by simp
  qed
  show ?thesis
  proof (rule exI [of _ e1], rule exI [of _ e2], rule exI [of _ h], intro conjI impI)
    show "is_prime_optimized e n = Inr (prime_ref n, e1)" by (rule e1(1))
    show "is_prime_optimized e1 n = Inr (prime_ref n, e2)" by (rule e2(1))
    show "cache_hits (stats e1) = JInt h" by (rule h)
  next
    assume a: "3 \<le> n \<and> n mod 2 \<noteq> 0 \<and> max_size (ecache e) \<noteq> 0"
    from hit [OF a] show "n \<in> dict_keys (cache (ecache e1))" ..
    from hit [OF a] show "cache_hits (stats e2) = JInt (h + 1)" ..
  next
    assume "n < 3 \<or> n mod 2 = 0 \<or> (max_size (ecache e) = 0 \<and> cache (ecache e) = [])"
    then show "cache_hits (stats e2) = JInt h" by (rule nohit)
  qed
qed

theorem is_prime_twice_witness:
  "engine_ok (blank_engine default_config \<lparr>max_size = 10000, cache = [], access_order = []\<rparr>) \<and>
   (7::int) \<le> 1000000 \<and> prime_ref 7 \<and>
   is_prime_optimized
     (blank_engine default_config \<lparr>max_size = 10000, cache = [], access_order = []\<rparr>) 7 =
     Inr (True,
       (blank_engine default_config \<lparr>max_size = 10000, cache = [], access_order = []\<rparr>)
         \<lparr>ecache := \<lparr>max_size = 10000, cache = [(7, True)], access_order = [7]\<rparr>\<rparr>) \<and>
   is_prime_optimized
     ((blank_engine default_config \<lparr>max_size = 10000, cache = [], access_order = []\<rparr>)
         \<lparr>ecache := \<lparr>max_size = 10000, cache = [(7, True)], access_order = [7]\<rparr>\<rparr>) 7 =
     Inr (True,
       (blank_engine default_config \<lparr>max_size = 10000, cache = [], access_order = []\<rparr>)
         \<lparr>ecache := \<lparr>max_size = 10000, cache = [(7, True)], access_order = [7]\<rparr>,
          stats := PrimeStats_init\<lparr>cache_hits := JInt 1\<rparr>\<rparr>)"
proof -
  let ?e = "blank_engine default_config \<lparr>max_size = 10000, cache = [], access_order = []\<rparr>"
  let ?e1 = "?e\<lparr>ecache := \<lparr>max_size = 10000, cache = [(7, True)], access_order = [7]\<rparr>\<rparr>"
  have ok: "engine_ok ?e"
    by (simp add: engine_ok_def blank_engine_def cache_inv_def cache_sound_def stats_ok_def
        PrimeStats_init_def is_int_def is_number_def dict_keys_def)
  have run1: "is_prime_optimized ?e 7 = Inr (True, ?e1)" by code_simp
  have run2: "is_prime_optimized ?e1 7 =
      Inr (True, ?e\<lparr>ecache := \<lparr>max_size = 10000, cache = [(7, True)], access_order = [7]\<rparr>,
                    stats := PrimeStats_init\<lparr>cache_hits := JInt 1\<rparr>\<rparr>)"
    by code_simp
  have le: "(7::int) \<le> 1000000" by simp
  from is_prime_twice [OF ok le] run1 have "prime_ref 7" by auto
  with ok run1 run2 show ?thesis by simp
qed

text \<open>
  C5 as stated fails at \<open>n = 2\<close>: the fast path answers both calls, the engine is
  unchanged and the hit counter of a new engine is still 0 after the second call.
\<close>

theorem is_prime_twice_counterexample:
  "is_prime_optimized
     (blank_engine default_config \<lparr>max_size = 10000, cache = [], access_order = []\<rparr>) 2 =
     Inr (True, blank_engine default_config \<lparr>max_size = 10000, cache = [], access_order = []\<rparr>) \<and>
   cache_hits
     (stats (blank_engine default_config \<lparr>max_size = 10000, cache = [], access_order = []\<rparr>)) =
     JInt 0"
  by (simp add: is_prime_optimized_def blank_engine_def PrimeStats_init_def)

section \<open>Finding the next prime\<close>

definition bump_candidates :: "engine \<Rightarrow> exn + engine" where
  \<comment> \<open>\<^verbatim>\<open>self.stats.total_candidates += 1\<close>\<close>
  "bump_candidates e =
     (case py_add_int (total_candidates (stats e)) 1 of
        Inl x \<Rightarrow> Inl x
      | Inr v \<Rightarrow> Inr (e\<lparr>stats := (stats e)\<lparr>total_candidates := v\<rparr>\<rparr>))"

partial_function (option) next_prime_loop :: "engine \<Rightarrow> int \<Rightarrow> (exn + int \<times> engine) option"
where
  "next_prime_loop e n =
     (case is_prime_optimized e n of
        Inl x \<Rightarrow> Some (Inl x)
      | Inr (b, e1) \<Rightarrow>
          if b then Some (Inr (n, e1))
          else (case bump_candidates e1 of
                  Inl x \<Rightarrow> Some (Inl x)
                | Inr e2 \<Rightarrow> next_prime_loop e2 (n + 2)))"

declare next_prime_loop.simps [code]

definition next_prime :: "engine \<Rightarrow> int \<Rightarrow> (exn + int \<times> engine) option" where
  \<comment> \<open>\<open>None\<close> would be a \<^verbatim>\<open>while\<close> loop that never ends.\<close>
  "next_prime e n =
     (case bump_candidates e of
        Inl x \<Rightarrow> Some (Inl x)
      | Inr e1 \<Rightarrow>
          if n < 2 then Some (Inr (2, e1))
          else if n = 2 then Some (Inr (3, e1))
          else next_prime_loop e1 (if n mod 2 = 0 then n + 1 else n))"

definition is_next_prime :: "int \<Rightarrow> int \<Rightarrow> bool" where
  \<comment> \<open>\<open>q\<close> is the least prime from \<open>n\<close> on.\<close>
  "is_next_prime n q \<longleftrightarrow> prime_ref q \<and> n \<le> q \<and> (\<forall>m \<in> {n..<q}. \<not> prime_ref m)"

definition same_but_counters :: "engine \<Rightarrow> engine \<Rightarrow> bool" where
  \<comment> \<open>Two engine states that differ at most in the cache, the registry, the hit counter
      and the candidate counter.\<close>
  "same_but_counters e e' \<longleftrightarrow>
     running e' = running e \<and> save_interval e' = save_interval e \<and>
     progress_interval e' = progress_interval e \<and> flushes e' = flushes e \<and>
     max_size (ecache e') = max_size (ecache e) \<and>
     (stats e')\<lparr>cache_hits := JNull, total_candidates := JNull\<rparr> =
       (stats e)\<lparr>cache_hits := JNull, total_candidates := JNull\<rparr>"

lemma same_but_counters_trans:
  "same_but_counters e1 e2 \<Longrightarrow> same_but_counters e2 e3 \<Longrightarrow> same_but_counters e1 e3"
  by (simp add: same_but_counters_def)

lemma same_but_cache_counters: "same_but_cache e e' \<Longrightarrow> same_but_counters e e'"
proof -
  assume a: "same_but_cache e e'"
  then have "(stats e')\<lparr>cache_hits := JNull\<rparr> = (stats e)\<lparr>cache_hits := JNull\<rparr>"
    by (simp add: same_but_cache_def)
  then have "((stats e')\<lparr>cache_hits := JNull\<rparr>)\<lparr>total_candidates := JNull\<rparr> =
      ((stats e)\<lparr>cache_hits := JNull\<rparr>)\<lparr>total_candidates := JNull\<rparr>"
    by (rule arg_cong)
  with a show ?thesis by (simp add: same_but_cache_def same_but_counters_def)
qed

lemma bump_candidates_ok:
  assumes "engine_ok e"
  shows "\<exists>e'. bump_candidates e = Inr e' \<and> engine_ok e' \<and> same_but_counters e e'"
proof -
  from assms obtain t where "total_candidates (stats e) = JInt t"
    unfolding engine_ok_def stats_ok_def by (elim conjE is_intE)
  with assms show ?thesis
    by (simp add: bump_candidates_def py_add_int_def engine_ok_def stats_ok_def is_int_def
        same_but_counters_def)
qed

lemma prime_ref_odd:
  assumes "prime_ref p" "3 \<le> p"
  shows "p mod 2 \<noteq> 0"
proof
  assume "p mod 2 = 0"
  moreover from assms(2) have "2 < p" by simp
  ultimately have "\<not> prime_ref p" by (intro prime_ref_even)
  with assms(1) show False by contradiction
qed

lemma prime_above: "\<exists>p. prime_ref p \<and> n \<le> p"
proof -
  define m where "m = nat (max n 2)"
  define N :: int where "N = fact m + 1"
  have m2: "2 \<le> m" by (simp add: m_def)
  have fm: "int m \<le> fact m" by (metis fact_ge_self of_nat_fact of_nat_le_iff)
  then have N2: "2 \<le> N" and mN: "int m < N" using m2 by (simp_all add: N_def)
  have nm: "n \<le> int m" by (simp add: m_def max_def)
  show ?thesis
  proof (cases "prime_ref N")
    case True
    with nm mN show ?thesis by (intro exI [of _ N]) simp
  next
    case False
    from least_divisor [OF N2 False] obtain q where
      q: "2 \<le> q" "q < N" "q dvd N" and least: "\<And>d. 2 \<le> d \<Longrightarrow> d < N \<Longrightarrow> d dvd N \<Longrightarrow> q \<le> d"
      by blast
    have pq: "prime_ref q"
      unfolding prime_ref_def
    proof (intro conjI ballI notI)
      show "2 \<le> q" by (rule q(1))
    next
      fix d assume d: "d \<in> {2..<q}" and dq: "d dvd q"
      from dq q(3) have "d dvd N" by (rule dvd_trans)
      moreover from d q(2) have "2 \<le> d" "d < N" by simp_all
      ultimately have "q \<le> d" by (intro least)
      with d show False by simp
    qed
    have "int m < q"
    proof (rule ccontr)
      assume "\<not> int m < q"
      with q(1) have "1 \<le> nat q" "nat q \<le> m" by simp_all
      then have "nat q dvd fact m" by (rule dvd_fact)
      then have "int (nat q) dvd int (fact m)" by (simp only: of_nat_dvd_iff)
      with q(1) have "q dvd fact m" by simp
      with q(3) have "q dvd N - fact m" by (rule dvd_diff)
      then have "q dvd 1" by (simp add: N_def)
      with q(1) show False by simp
    qed
    with nm pq show ?thesis by (intro exI [of _ q]) simp
  qed
qed

lemma next_prime_loop_total:
  assumes "engine_ok e" "3 \<le> n" "n mod 2 \<noteq> 0" "prime_ref p" "n \<le> p"
  shows "\<exists>q e'. next_prime_loop e n = Some (Inr (q, e')) \<and> is_next_prime n q \<and>
           engine_ok e' \<and> same_but_counters e e'"
  using assms
proof (induction "nat (p - n)" arbitrary: e n rule: less_induct)
  case less
  from is_prime_optimized_sound [OF less.prems(1), of n] obtain e1 where
    e1: "is_prime_optimized e n = Inr (prime_ref n, e1)" "engine_ok e1" "same_but_cache e e1"
    by blast
  from e1(3) have f1: "same_but_counters e e1" by (rule same_but_cache_counters)
  show ?case
  proof (cases "prime_ref n")
    case True
    with e1(1) have "next_prime_loop e n = Some (Inr (n, e1))"
      by (subst next_prime_loop.simps) simp
    moreover from True have "is_next_prime n n" by (auto simp: is_next_prime_def)
    ultimately show ?thesis using e1(2) f1 by blast
  next
    case False
    from less.prems(2,5) have "3 \<le> p" by simp
    from prime_ref_odd [OF less.prems(4) this] have podd: "p mod 2 \<noteq> 0" .
    from False less.prems(4,5) have "n < p" by (cases "n = p") auto
    with podd less.prems(3) have n2p: "n + 2 \<le> p" by presburger
    from bump_candidates_ok [OF e1(2)] obtain e2 where
      e2: "bump_candidates e1 = Inr e2" "engine_ok e2" "same_but_counters e1 e2"
      by blast
    from n2p have "nat (p - (n + 2)) < nat (p - n)" by simp
    moreover from less.prems(2) have "3 \<le> n + 2" by simp
    moreover from less.prems(3) have "(n + 2) mod 2 \<noteq> 0" by presburger
    ultimately obtain q e' where
      q: "next_prime_loop e2 (n + 2) = Some (Inr (q, e'))" "is_next_prime (n + 2) q"
        "engine_ok e'" "same_but_counters e2 e'"
      using less.hyps [of "n + 2" e2] e2(2) less.prems(4) n2p by blast
    from e1(1) False e2(1) have "next_prime_loop e n = next_prime_loop e2 (n + 2)"
      by (subst next_prime_loop.simps) simp
    with q(1) have run: "next_prime_loop e n = Some (Inr (q, e'))" by simp
    have "is_next_prime n q"
      unfolding is_next_prime_def
    proof (intro conjI ballI)
      from q(2) show "prime_ref q" by (simp add: is_next_prime_def)
      from q(2) show "n \<le> q" by (simp add: is_next_prime_def)
    next
      fix m assume "m \<in> {n..<q}"
      then have m: "n \<le> m \<and> m < q" by simp
      consider "m = n" | "m = n + 1" | "n + 2 \<le> m" using m by (cases "m = n"; cases "m = n + 1") auto
      then show "\<not> prime_ref m"
      proof cases
        case 1
        with False show ?thesis by simp
      next
        case 2
        with less.prems(2,3) have "2 < m" "m mod 2 = 0" by presburger+
        then show ?thesis by (rule prime_ref_even)
      next
        case 3
        with q(2) m show ?thesis by (simp add: is_next_prime_def)
      qed
    qed
    moreover from f1 e2(3) q(4) have "same_but_counters e e'"
      by (blast intro: same_but_counters_trans)
    ultimately show ?thesis using run q(3) by blast
  qed
qed

lemma next_prime_total:
  assumes "engine_ok e"
  shows "\<exists>q e'. next_prime e n = Some (Inr (q, e')) \<and>
           q = (if n < 2 then 2 else if n = 2 then 3 else q) \<and>
           (2 < n \<longrightarrow> is_next_prime n q) \<and> engine_ok e' \<and> same_but_counters e e'"
proof -
  from bump_candidates_ok [OF assms] obtain e1 where
    e1: "bump_candidates e = Inr e1" "engine_ok e1" "same_but_counters e e1"
    by blast
  show ?thesis
  proof (cases "n \<le> 2")
    case True
    with e1 show ?thesis by (auto simp: next_prime_def)
  next
    case False
    define n' where "n' = (if n mod 2 = 0 then n + 1 else n)"
    from False have n'3: "3 \<le> n'" and n'odd: "n' mod 2 \<noteq> 0" and nn': "n \<le> n'"
      unfolding n'_def by presburger+
    from prime_above [of n'] obtain p where p: "prime_ref p" "n' \<le> p" by blast
    from next_prime_loop_total [OF e1(2) n'3 n'odd p] obtain q e' where
      q: "next_prime_loop e1 n' = Some (Inr (q, e'))" "is_next_prime n' q" "engine_ok e'"
        "same_but_counters e1 e'"
      by blast
    from False e1(1) q(1) have run: "next_prime e n = Some (Inr (q, e'))"
      by (simp add: next_prime_def n'_def)
    have "is_next_prime n q"
      unfolding is_next_prime_def
    proof (intro conjI ballI)
      from q(2) show "prime_ref q" by (simp add: is_next_prime_def)
      from q(2) nn' show "n \<le> q" by (simp add: is_next_prime_def)
    next
      fix m assume "m \<in> {n..<q}"
      then have m: "n \<le> m \<and> m < q" by simp
      show "\<not> prime_ref m"
      proof (cases "n' \<le> m")
        case True
        with q(2) m show ?thesis by (simp add: is_next_prime_def)
      next
        case nle: False
        with m False have "2 < m" "m mod 2 = 0" unfolding n'_def by presburger+
        then show ?thesis by (rule prime_ref_even)
      qed
    qed
    moreover from e1(3) q(4) have "same_but_counters e e'" by (rule same_but_counters_trans)
    ultimately show ?thesis using run q(3) False by auto
  qed
qed

section \<open>Statistics and the generator\<close>

definition gap_stats :: "PrimeStats \<Rightarrow> int \<Rightarrow> exn + PrimeStats" where
  \<comment> \<open>The body of \<^verbatim>\<open>if gap > 0:\<close> in \<^verbatim>\<open>_update_stats\<close>.\<close>
  "gap_stats st gap =
     (case py_max_int (max_gap st) gap of
        Inl x \<Rightarrow> Inl x
      | Inr mx \<Rightarrow>
          (case py_min_int (min_gap st) gap of
             Inl x \<Rightarrow> Inl x
           | Inr mn \<Rightarrow>
               (let st1 = st\<lparr>max_gap := mx, min_gap := mn\<rparr> in
                if py_eq_int (total_primes st1) 1 then Inr (st1\<lparr>avg_gap := JInt gap\<rparr>)
                else (case py_smooth (avg_gap st1) gap of
                        Inl x \<Rightarrow> Inl x
                      | Inr a \<Rightarrow> Inr (st1\<lparr>avg_gap := a\<rparr>)))))"

definition update_stats :: "engine \<Rightarrow> int \<Rightarrow> rat \<Rightarrow> exn + engine" where
  \<comment> \<open>\<^verbatim>\<open>_update_stats(gap, elapsed)\<close>\<close>
  "update_stats e gap elapsed =
     (case py_add_int (total_primes (stats e)) 1 of
        Inl x \<Rightarrow> Inl x
      | Inr tp \<Rightarrow>
          (let st1 = (stats e)\<lparr>total_primes := tp, total_time := JFloat elapsed,
                                cache_size := JInt (PrimeCache_size (ecache e))\<rparr> in
           case (if gap > 0 then gap_stats st1 gap else Inr st1) of
             Inl x \<Rightarrow> Inl x
           | Inr st2 \<Rightarrow>
               (if elapsed > 0 then
                  (case py_div_float (total_primes st2) elapsed of
                     Inl x \<Rightarrow> Inl x
                   | Inr pps \<Rightarrow> Inr (e\<lparr>stats := st2\<lparr>primes_per_second := pps\<rparr>\<rparr>))
                else Inr (e\<lparr>stats := st2\<rparr>))))"

definition save_database :: "engine \<Rightarrow> engine" where
  \<comment> \<open>\<^verbatim>\<open>_save_database\<close>: hands the registry and the statistics to the file; a failure to
      write is logged and absorbed. The engine itself does not change.\<close>
  "save_database e = e\<lparr>flushes := flushes e @ [(code_db e, stats e)]\<rparr>"

definition log_progress :: "engine \<Rightarrow> exn + unit" where
  \<comment> \<open>\<^verbatim>\<open>_log_progress\<close> formats \<^verbatim>\<open>primes_per_second\<close> with \<^verbatim>\<open>:.2f\<close>, which a value
      that is no number rejects; it changes nothing.\<close>
  "log_progress e =
     (case primes_per_second (stats e) of
        JStr s \<Rightarrow> Inl ValueError
      | JNull \<Rightarrow> Inl TypeError
      | JList xs \<Rightarrow> Inl TypeError
      | JObj kvs \<Rightarrow> Inl TypeError
      | _ \<Rightarrow> Inr ())"

text \<open>
  The generator object of \<^verbatim>\<open>generate_primes\<close>: the engine, the arguments and the local
  variables, and where the body is suspended. \<^verbatim>\<open>time.time() - start_time\<close> is an input
  of each step.
\<close>

datatype gen_pc = NotStarted | AtYield | Finished

record generator =
  g_engine :: engine
  g_limit :: "int option"
  g_pc :: gen_pc
  g_n :: int
  g_last_prime :: "int option"
  g_count :: int
  g_p :: int

definition generate_primes :: "engine \<Rightarrow> int \<Rightarrow> int option \<Rightarrow> generator" where
  \<comment> \<open>Calling the generator function runs nothing of its body.\<close>
  "generate_primes e start limit =
     \<lparr>g_engine = e, g_limit = limit, g_pc = NotStarted, g_n = start, g_last_prime = None,
      g_count = 0, g_p = 0\<rparr>"

definition after_yield :: "generator \<Rightarrow> exn + generator" where
  \<comment> \<open>From the \<^verbatim>\<open>yield\<close> to the end of the loop body.\<close>
  "after_yield g =
     (if save_interval (g_engine g) = 0 then Inl ZeroDivisionError
      else
        (let e1 = (if g_count g mod save_interval (g_engine g) = 0
                   then save_database (g_engine g) else g_engine g) in
         if progress_interval e1 = 0 then Inl ZeroDivisionError
         else
           (case (if g_count g mod progress_interval e1 = 0 then log_progress e1 else Inr ()) of
              Inl x \<Rightarrow> Inl x
            | Inr u \<Rightarrow> Inr (g\<lparr>g_engine := e1, g_last_prime := Some (g_p g), g_n := g_p g + 1\<rparr>))))"

definition loop_head :: "generator \<Rightarrow> rat \<Rightarrow> (exn + (int \<times> int \<times> int) option \<times> generator) option"
where
  \<comment> \<open>From the \<^verbatim>\<open>while\<close> test to the \<^verbatim>\<open>yield\<close>, or to the end of the function.\<close>
  "loop_head g elapsed =
     (if running (g_engine g) \<and> (case g_limit g of None \<Rightarrow> True | Some l \<Rightarrow> g_count g < l) then
        (case next_prime (g_engine g) (g_n g) of
           None \<Rightarrow> None
         | Some (Inl x) \<Rightarrow> Some (Inl x)
         | Some (Inr (p, e1)) \<Rightarrow>
             (let count = g_count g + 1;
                  gap = (case g_last_prime g of None \<Rightarrow> 0 | Some lp \<Rightarrow> p - lp) in
              case update_stats e1 gap elapsed of
                Inl x \<Rightarrow> Some (Inl x)
              | Inr e2 \<Rightarrow>
                  Some (Inr (Some (count, p, gap),
                    g\<lparr>g_engine := e2, g_count := count, g_p := p, g_pc := AtYield\<rparr>))))
      else Some (Inr (None, g\<lparr>g_engine := save_database (g_engine g), g_pc := Finished\<rparr>)))"

definition gen_next :: "generator \<Rightarrow> rat \<Rightarrow> (exn + (int \<times> int \<times> int) option \<times> generator) option"
where
  \<comment> \<open>\<^verbatim>\<open>next(generator)\<close>: \<open>Some (Inr (Some r, g'))\<close> yields \<open>r\<close>, \<open>Some (Inr (None, g'))\<close>
      is the end of the iteration.\<close>
  "gen_next g elapsed =
     (case g_pc g of
        NotStarted \<Rightarrow> loop_head g elapsed
      | AtYield \<Rightarrow>
          (case after_yield g of
             Inl x \<Rightarrow> Some (Inl x)
           | Inr g1 \<Rightarrow> loop_head g1 elapsed)
      | Finished \<Rightarrow> Some (Inr (None, g)))"

fun gen_take :: "nat \<Rightarrow> (nat \<Rightarrow> rat) \<Rightarrow> nat \<Rightarrow> generator \<Rightarrow>
    (exn + (int \<times> int \<times> int) list \<times> generator) option" where
  \<comment> \<open>The first \<open>k\<close> results from the \<open>i\<close>-th call of \<^verbatim>\<open>next\<close> on; \<open>clock i\<close> is the
      elapsed time read in the \<open>i\<close>-th call.\<close>
  "gen_take 0 clock i g = Some (Inr ([], g))"
| "gen_take (Suc k) clock i g =
     (case gen_next g (clock i) of
        None \<Rightarrow> None
      | Some (Inl x) \<Rightarrow> Some (Inl x)
      | Some (Inr (None, g1)) \<Rightarrow> Some (Inr ([], g1))
      | Some (Inr (Some r, g1)) \<Rightarrow>
          (case gen_take k clock (Suc i) g1 of
             None \<Rightarrow> None
           | Some (Inl x) \<Rightarrow> Some (Inl x)
           | Some (Inr (rs, g2)) \<Rightarrow> Some (Inr (r # rs, g2))))"

lemma is_numberE: "is_number x \<Longrightarrow> (\<And>v. as_num x = Some v \<Longrightarrow> P) \<Longrightarrow> P"
  by (cases "as_num x") (simp_all add: is_number_def)

lemma py_max_int_ok: "is_number x \<Longrightarrow> \<exists>v. py_max_int x g = Inr v \<and> is_number v"
  by (erule is_numberE) (simp add: py_max_int_def is_number_def)

lemma py_min_int_ok: "is_number x \<Longrightarrow> \<exists>v. py_min_int x g = Inr v \<and> is_number v"
  by (erule is_numberE) (simp add: py_min_int_def is_number_def)

lemma py_smooth_ok: "is_number x \<Longrightarrow> \<exists>v. py_smooth x g = Inr v \<and> is_number v"
proof (erule is_numberE)
  fix v assume "as_num x = Some v"
  then show ?thesis by (cases v) (simp_all add: py_smooth_def is_number_def Let_def)
qed

lemma gap_stats_ok:
  assumes "is_number (max_gap st)" "is_number (min_gap st)" "is_number (avg_gap st)"
  shows "\<exists>mx mn a. gap_stats st gap = Inr (st\<lparr>max_gap := mx, min_gap := mn, avg_gap := a\<rparr>) \<and>
           is_number mx \<and> is_number mn \<and> is_number a"
proof -
  from py_max_int_ok [OF assms(1), of gap] obtain mx where
    mx: "py_max_int (max_gap st) gap = Inr mx" "is_number mx" by blast
  from py_min_int_ok [OF assms(2), of gap] obtain mn where
    mn: "py_min_int (min_gap st) gap = Inr mn" "is_number mn" by blast
  from py_smooth_ok [OF assms(3), of gap] obtain a where
    a: "py_smooth (avg_gap st) gap = Inr a" "is_number a" by blast
  show ?thesis
  proof (cases "py_eq_int (total_primes st) 1")
    case True
    with mx mn have "gap_stats st gap = Inr (st\<lparr>max_gap := mx, min_gap := mn, avg_gap := JInt gap\<rparr>)"
      by (simp add: gap_stats_def Let_def)
    moreover have "is_number (JInt gap)" by (simp add: is_number_def)
    ultimately show ?thesis using mx(2) mn(2) by blast
  next
    case False
    with mx mn a have "gap_stats st gap = Inr (st\<lparr>max_gap := mx, min_gap := mn, avg_gap := a\<rparr>)"
      by (simp add: gap_stats_def Let_def)
    with mx(2) mn(2) a(2) show ?thesis by blast
  qed
qed

definition same_but_stats :: "engine \<Rightarrow> engine \<Rightarrow> bool" where
  "same_but_stats e e' \<longleftrightarrow>
     ecache e' = ecache e \<and> code_db e' = code_db e \<and> running e' = running e \<and>
     save_interval e' = save_interval e \<and> progress_interval e' = progress_interval e \<and>
     flushes e' = flushes e \<and> total_candidates (stats e') = total_candidates (stats e) \<and>
     cache_hits (stats e') = cache_hits (stats e)"

lemma update_stats_ok:
  assumes "engine_ok e"
  shows "\<exists>e' c. update_stats e gap t = Inr e' \<and> engine_ok e' \<and> same_but_stats e e' \<and>
           total_primes (stats e) = JInt c \<and> total_primes (stats e') = JInt (c + 1) \<and>
           (\<not> 0 < gap \<longrightarrow> avg_gap (stats e') = avg_gap (stats e) \<and>
              max_gap (stats e') = max_gap (stats e) \<and> min_gap (stats e') = min_gap (stats e))"
proof -
  from assms have inv: "cache_inv (ecache e)" "cache_sound (ecache e)" and st: "stats_ok (stats e)"
    by (simp_all add: engine_ok_def)
  from st obtain c where c: "total_primes (stats e) = JInt c"
    unfolding stats_ok_def by (elim conjE is_intE)
  define st1 where "st1 = (stats e)\<lparr>total_primes := JInt (c + 1), total_time := JFloat t,
      cache_size := JInt (PrimeCache_size (ecache e))\<rparr>"
  from st have ok1: "stats_ok st1" by (simp add: st1_def stats_ok_def is_int_def)
  have "\<exists>st2. (if 0 < gap then gap_stats st1 gap else Inr st1) = Inr st2 \<and> stats_ok st2 \<and>
      total_primes st2 = JInt (c + 1) \<and> total_candidates st2 = total_candidates (stats e) \<and>
      cache_hits st2 = cache_hits (stats e) \<and>
      (\<not> 0 < gap \<longrightarrow> avg_gap st2 = avg_gap (stats e) \<and> max_gap st2 = max_gap (stats e) \<and>
         min_gap st2 = min_gap (stats e))"
  proof (cases "0 < gap")
    case True
    from ok1 have "is_number (max_gap st1)" "is_number (min_gap st1)" "is_number (avg_gap st1)"
      by (simp_all add: stats_ok_def)
    from gap_stats_ok [OF this, of gap] obtain mx mn a where
      g: "gap_stats st1 gap = Inr (st1\<lparr>max_gap := mx, min_gap := mn, avg_gap := a\<rparr>)"
        "is_number mx" "is_number mn" "is_number a"
      by blast
    with True ok1 show ?thesis by (simp add: stats_ok_def st1_def)
  next
    case False
    with ok1 show ?thesis by (simp add: st1_def)
  qed
  then obtain st2 where st2: "(if 0 < gap then gap_stats st1 gap else Inr st1) = Inr st2"
    "stats_ok st2" "total_primes st2 = JInt (c + 1)"
    "total_candidates st2 = total_candidates (stats e)" "cache_hits st2 = cache_hits (stats e)"
    "\<not> 0 < gap \<longrightarrow> avg_gap st2 = avg_gap (stats e) \<and> max_gap st2 = max_gap (stats e) \<and>
       min_gap st2 = min_gap (stats e)"
    by blast
  define st3 where "st3 = (if 0 < t then st2\<lparr>primes_per_second := JFloat (of_int (c + 1) / t)\<rparr>
      else st2)"
  from c st2(1,3) have run: "update_stats e gap t = Inr (e\<lparr>stats := st3\<rparr>)"
    by (simp add: update_stats_def py_add_int_def st1_def [symmetric] Let_def py_div_float_def
        st3_def)
  from st2(2) have "stats_ok st3" by (simp add: st3_def stats_ok_def is_number_def)
  with inv have "engine_ok (e\<lparr>stats := st3\<rparr>)" by (simp add: engine_ok_def)
  moreover from st2(4,5) have "same_but_stats e (e\<lparr>stats := st3\<rparr>)"
    by (simp add: same_but_stats_def st3_def)
  moreover from st2(3) have "total_primes (stats (e\<lparr>stats := st3\<rparr>)) = JInt (c + 1)"
    by (simp add: st3_def)
  moreover from st2(6) have "\<not> 0 < gap \<longrightarrow> avg_gap (stats (e\<lparr>stats := st3\<rparr>)) = avg_gap (stats e) \<and>
      max_gap (stats (e\<lparr>stats := st3\<rparr>)) = max_gap (stats e) \<and>
      min_gap (stats (e\<lparr>stats := st3\<rparr>)) = min_gap (stats e)"
    by (simp add: st3_def)
  ultimately show ?thesis using run c by blast
qed


lemma log_progress_ok: "is_number (primes_per_second (stats e)) \<Longrightarrow> log_progress e = Inr ()"
  by (cases "primes_per_second (stats e)") (simp_all add: log_progress_def is_number_def)

definition gen_ok :: "generator \<Rightarrow> bool" where
  \<comment> \<open>The engine of the generator is well formed, has not been stopped, and its two
      intervals are not 0.\<close>
  "gen_ok g \<longleftrightarrow>
     engine_ok (g_engine g) \<and> running (g_engine g) \<and> save_interval (g_engine g) \<noteq> 0 \<and>
     progress_interval (g_engine g) \<noteq> 0"

definition within_limit :: "generator \<Rightarrow> bool" where
  \<comment> \<open>\<^verbatim>\<open>limit is None or count < limit\<close>\<close>
  "within_limit g = (case g_limit g of None \<Rightarrow> True | Some l \<Rightarrow> g_count g < l)"

definition gen_pos :: "generator \<Rightarrow> int" where
  \<comment> \<open>The argument of the next call of \<^verbatim>\<open>next_prime\<close>.\<close>
  "gen_pos g = (if g_pc g = AtYield then g_p g + 1 else g_n g)"

definition gen_last :: "generator \<Rightarrow> int option" where
  \<comment> \<open>The value of \<^verbatim>\<open>last_prime\<close> at the next call of \<^verbatim>\<open>next_prime\<close>.\<close>
  "gen_last g = (if g_pc g = AtYield then Some (g_p g) else g_last_prime g)"

definition next_from :: "int \<Rightarrow> int \<Rightarrow> bool" where
  \<comment> \<open>What \<^verbatim>\<open>next_prime(n)\<close> returns.\<close>
  "next_from n q = (if n < 2 then q = 2 else if n = 2 then q = 3 else is_next_prime n q)"

lemma is_next_prime_unique:
  assumes "is_next_prime n q" and "is_next_prime n q'"
  shows "q = q'"
proof (rule ccontr)
  assume ne: "q \<noteq> q'"
  from assms have p: "prime_ref q" "n \<le> q" "prime_ref q'" "n \<le> q'"
    and a: "\<forall>m \<in> {n..<q}. \<not> prime_ref m" and b: "\<forall>m \<in> {n..<q'}. \<not> prime_ref m"
    by (simp_all add: is_next_prime_def)
  show False
  proof (cases "q < q'")
    case True
    with p(2) have "q \<in> {n..<q'}" by simp
    with b p(1) show False by blast
  next
    case False
    with ne have "q' < q" by simp
    with p(4) have "q' \<in> {n..<q}" by simp
    with a p(3) show False by blast
  qed
qed

lemma next_from_unique: "next_from n q \<Longrightarrow> next_from n q' \<Longrightarrow> q = q'"
  by (auto simp: next_from_def dest: is_next_prime_unique split: if_splits)


lemma next_prime_from:
  assumes "engine_ok e"
  shows "\<exists>q e'. next_prime e n = Some (Inr (q, e')) \<and> next_from n q \<and> engine_ok e' \<and>
           same_but_counters e e'"
proof -
  from next_prime_total [OF assms, of n] obtain q e' where
    q: "next_prime e n = Some (Inr (q, e'))"
      "q = (if n < 2 then 2 else if n = 2 then 3 else q)" "2 < n \<longrightarrow> is_next_prime n q"
      "engine_ok e'" "same_but_counters e e'"
    by blast
  have "next_from n q"
  proof (cases "2 < n")
    case True
    with q(3) show ?thesis by (simp add: next_from_def)
  next
    case False
    then have "n < 2 \<or> n = 2" by auto
    then show ?thesis
    proof
      assume "n < 2"
      with q(2) show ?thesis by (simp add: next_from_def)
    next
      assume "n = 2"
      with q(2) show ?thesis by (simp add: next_from_def)
    qed
  qed
  with q(1,4,5) show ?thesis by blast
qed

lemma after_yield_ok:
  assumes "gen_ok g"
  shows "\<exists>e1. after_yield g =
             Inr (g\<lparr>g_engine := e1, g_last_prime := Some (g_p g), g_n := g_p g + 1\<rparr>) \<and>
           engine_ok e1 \<and> running e1 \<and> save_interval e1 \<noteq> 0 \<and> progress_interval e1 \<noteq> 0 \<and>
           stats e1 = stats (g_engine g)"
proof -
  define e1 where "e1 = (if g_count g mod save_interval (g_engine g) = 0
      then save_database (g_engine g) else g_engine g)"
  from assms have ok: "engine_ok e1" "running e1" "save_interval e1 \<noteq> 0"
    "progress_interval e1 \<noteq> 0" "stats e1 = stats (g_engine g)"
    by (simp_all add: e1_def gen_ok_def save_database_def engine_ok_def)
  from ok(1) have "is_number (primes_per_second (stats e1))"
    by (simp add: engine_ok_def stats_ok_def)
  then have "log_progress e1 = Inr ()" by (rule log_progress_ok)
  with assms ok(4) have "after_yield g =
      Inr (g\<lparr>g_engine := e1, g_last_prime := Some (g_p g), g_n := g_p g + 1\<rparr>)"
    by (simp add: after_yield_def gen_ok_def e1_def [symmetric] Let_def)
  with ok show ?thesis by blast
qed

lemma loop_head_emits:
  assumes "engine_ok (g_engine g)" and "running (g_engine g)" and "within_limit g"
  shows "\<exists>p e1 e2. loop_head g t =
             Some (Inr (Some (g_count g + 1, p, case g_last_prime g of None \<Rightarrow> 0 | Some lp \<Rightarrow> p - lp),
               g\<lparr>g_engine := e2, g_count := g_count g + 1, g_p := p, g_pc := AtYield\<rparr>)) \<and>
           next_from (g_n g) p \<and> same_but_counters (g_engine g) e1 \<and> engine_ok e1 \<and>
           update_stats e1 (case g_last_prime g of None \<Rightarrow> 0 | Some lp \<Rightarrow> p - lp) t = Inr e2 \<and>
           engine_ok e2 \<and> same_but_stats e1 e2"
proof -
  from next_prime_from [OF assms(1), of "g_n g"] obtain p e1 where
    p: "next_prime (g_engine g) (g_n g) = Some (Inr (p, e1))" "next_from (g_n g) p"
      "engine_ok e1" "same_but_counters (g_engine g) e1"
    by blast
  define gap where "gap = (case g_last_prime g of None \<Rightarrow> 0 | Some lp \<Rightarrow> p - lp)"
  from update_stats_ok [OF p(3), of gap t] obtain e2 where
    e2: "update_stats e1 gap t = Inr e2" "engine_ok e2" "same_but_stats e1 e2"
    by blast
  from assms(2,3) p(1) e2(1) have "loop_head g t =
      Some (Inr (Some (g_count g + 1, p, gap),
        g\<lparr>g_engine := e2, g_count := g_count g + 1, g_p := p, g_pc := AtYield\<rparr>))"
    by (simp add: loop_head_def within_limit_def gap_def [symmetric] Let_def)
  with p(2,3,4) e2 show ?thesis unfolding gap_def by blast
qed

lemma gen_next_emits:
  assumes "gen_ok g" and "g_pc g \<noteq> Finished" and "within_limit g"
  shows "\<exists>p e0 e1 e2. gen_next g t =
             Some (Inr (Some (g_count g + 1, p, case gen_last g of None \<Rightarrow> 0 | Some lp \<Rightarrow> p - lp),
               \<lparr>g_engine = e2, g_limit = g_limit g, g_pc = AtYield, g_n = gen_pos g,
                g_last_prime = gen_last g, g_count = g_count g + 1, g_p = p\<rparr>)) \<and>
           next_from (gen_pos g) p \<and> gen_ok \<lparr>g_engine = e2, g_limit = g_limit g, g_pc = AtYield,
             g_n = gen_pos g, g_last_prime = gen_last g, g_count = g_count g + 1, g_p = p\<rparr> \<and>
           stats e0 = stats (g_engine g) \<and> same_but_counters e0 e1 \<and> engine_ok e1 \<and>
           update_stats e1 (case gen_last g of None \<Rightarrow> 0 | Some lp \<Rightarrow> p - lp) t = Inr e2"
proof -
  have "\<exists>g0. (case g_pc g of NotStarted \<Rightarrow> Inr g | AtYield \<Rightarrow> after_yield g | Finished \<Rightarrow> Inr g) = Inr g0 \<and>
      gen_ok g0 \<and> g_n g0 = gen_pos g \<and> g_last_prime g0 = gen_last g \<and> g_count g0 = g_count g \<and>
      g_limit g0 = g_limit g \<and> stats (g_engine g0) = stats (g_engine g)"
  proof (cases "g_pc g")
    case NotStarted
    with assms(1) show ?thesis by (simp add: gen_pos_def gen_last_def)
  next
    case AtYield
    from after_yield_ok [OF assms(1)] obtain e1 where
      e1: "after_yield g = Inr (g\<lparr>g_engine := e1, g_last_prime := Some (g_p g), g_n := g_p g + 1\<rparr>)"
        "engine_ok e1" "running e1" "save_interval e1 \<noteq> 0" "progress_interval e1 \<noteq> 0"
        "stats e1 = stats (g_engine g)"
      by blast
    with AtYield show ?thesis by (simp add: gen_pos_def gen_last_def gen_ok_def)
  next
    case Finished
    with assms(2) show ?thesis by simp
  qed
  then obtain g0 where g0: "(case g_pc g of NotStarted \<Rightarrow> Inr g | AtYield \<Rightarrow> after_yield g
        | Finished \<Rightarrow> Inr g) = Inr g0"
      "gen_ok g0" "g_n g0 = gen_pos g" "g_last_prime g0 = gen_last g" "g_count g0 = g_count g"
      "g_limit g0 = g_limit g" "stats (g_engine g0) = stats (g_engine g)"
    by blast
  from g0(1) assms(2) have run: "gen_next g t = loop_head g0 t"
    by (cases "g_pc g") (simp_all add: gen_next_def)
  from g0(2) have ok0: "engine_ok (g_engine g0)" "running (g_engine g0)"
    by (simp_all add: gen_ok_def)
  from assms(3) g0(5,6) have lim0: "within_limit g0"
    by (simp add: within_limit_def split: option.splits)
  from loop_head_emits [OF ok0 lim0, of t] obtain p e1 e2 where
    e: "loop_head g0 t =
        Some (Inr (Some (g_count g0 + 1, p, case g_last_prime g0 of None \<Rightarrow> 0 | Some lp \<Rightarrow> p - lp),
          g0\<lparr>g_engine := e2, g_count := g_count g0 + 1, g_p := p, g_pc := AtYield\<rparr>))"
      "next_from (g_n g0) p" "same_but_counters (g_engine g0) e1" "engine_ok e1"
      "update_stats e1 (case g_last_prime g0 of None \<Rightarrow> 0 | Some lp \<Rightarrow> p - lp) t = Inr e2"
      "engine_ok e2" "same_but_stats e1 e2"
    by blast
  let ?g' = "\<lparr>g_engine = e2, g_limit = g_limit g, g_pc = AtYield, g_n = gen_pos g,
      g_last_prime = gen_last g, g_count = g_count g + 1, g_p = p\<rparr>"
  from g0(3,4,5,6) have geq:
    "g0\<lparr>g_engine := e2, g_count := g_count g0 + 1, g_p := p, g_pc := AtYield\<rparr> = ?g'"
    by (cases g0) simp
  from g0(2) e(3,6,7) have "gen_ok ?g'"
    by (simp add: gen_ok_def same_but_counters_def same_but_stats_def)
  with run e(1,2,3,4,5) geq g0(3,4,5,7) show ?thesis by (intro exI [of _ p] exI [of _ "g_engine g0"] exI [of _ e1] exI [of _ e2]) simp
qed



section \<open>Runs of the generator\<close>

fun chain :: "int \<Rightarrow> int list \<Rightarrow> bool" where
  \<comment> \<open>\<open>qs\<close> are the results of successive calls of \<^verbatim>\<open>next_prime\<close>, the first at \<open>n\<close> and each
      later one at the previous result plus 1.\<close>
  "chain n [] = True"
| "chain n (q # qs) = (next_from n q \<and> chain (q + 1) qs)"

fun records :: "int \<Rightarrow> int option \<Rightarrow> int list \<Rightarrow> (int \<times> int \<times> int) list" where
  \<comment> \<open>The result records for the primes \<open>qs\<close>, after \<open>c\<close> results, the last of them \<open>prev\<close>.\<close>
  "records c prev [] = []"
| "records c prev (q # qs) =
     (c + 1, q, case prev of None \<Rightarrow> 0 | Some lp \<Rightarrow> q - lp) # records (c + 1) (Some q) qs"

lemma gen_step:
  assumes "gen_ok g" and "g_pc g \<noteq> Finished" and "within_limit g" and "next_from (gen_pos g) q"
  shows "\<exists>g'. gen_next g t =
            Some (Inr (Some (g_count g + 1, q, case gen_last g of None \<Rightarrow> 0 | Some lp \<Rightarrow> q - lp), g')) \<and>
          gen_ok g' \<and> g_pc g' = AtYield \<and> g_p g' = q \<and> g_count g' = g_count g + 1 \<and>
          g_limit g' = g_limit g"
proof -
  from gen_next_emits [OF assms(1,2,3), of t] obtain p e2 where
    p: "gen_next g t =
        Some (Inr (Some (g_count g + 1, p, case gen_last g of None \<Rightarrow> 0 | Some lp \<Rightarrow> p - lp),
          \<lparr>g_engine = e2, g_limit = g_limit g, g_pc = AtYield, g_n = gen_pos g,
           g_last_prime = gen_last g, g_count = g_count g + 1, g_p = p\<rparr>))"
      "next_from (gen_pos g) p"
      "gen_ok \<lparr>g_engine = e2, g_limit = g_limit g, g_pc = AtYield, g_n = gen_pos g,
           g_last_prime = gen_last g, g_count = g_count g + 1, g_p = p\<rparr>"
    by blast
  from p(2) assms(4) have "p = q" by (rule next_from_unique)
  with p(1,3) show ?thesis by (simp cong: option.case_cong)
qed

lemma gen_take_primes:
  assumes "gen_ok g" and "g_pc g \<noteq> Finished" and "g_limit g = None" and "chain (gen_pos g) qs"
  shows "\<exists>g'. gen_take (length qs) clock i g =
           Some (Inr (records (g_count g) (gen_last g) qs, g'))"
  using assms
proof (induction qs arbitrary: g i)
  case Nil
  show ?case by simp
next
  case (Cons q qs)
  from Cons.prems(3) have lim: "within_limit g" by (simp add: within_limit_def)
  from Cons.prems(4) have nx: "next_from (gen_pos g) q" and rest: "chain (q + 1) qs" by simp_all
  from gen_step [OF Cons.prems(1,2) lim nx, of "clock i"] obtain g1 where
    g1: "gen_next g (clock i) =
        Some (Inr (Some (g_count g + 1, q, case gen_last g of None \<Rightarrow> 0 | Some lp \<Rightarrow> q - lp), g1))"
      "gen_ok g1" "g_pc g1 = AtYield" "g_p g1 = q" "g_count g1 = g_count g + 1"
      "g_limit g1 = g_limit g"
    by blast
  from g1(3,4) have pos: "gen_pos g1 = q + 1" "gen_last g1 = Some q"
    by (simp_all add: gen_pos_def gen_last_def)
  from g1(3) have pc1: "g_pc g1 \<noteq> Finished" by simp
  from g1(6) Cons.prems(3) have lim1: "g_limit g1 = None" by simp
  from rest pos(1) have ch1: "chain (gen_pos g1) qs" by simp
  from Cons.IH [OF g1(2) pc1 lim1 ch1, of "Suc i"] obtain g' where
    "gen_take (length qs) clock (Suc i) g1 = Some (Inr (records (g_count g1) (gen_last g1) qs, g'))"
    by blast
  with g1(1,5) pos(2) have "gen_take (length (q # qs)) clock i g =
      Some (Inr (records (g_count g) (gen_last g) (q # qs), g'))"
    by simp
  then show ?case by blast
qed

fun results_ok :: "int \<Rightarrow> int option \<Rightarrow> (int \<times> int \<times> int) list \<Rightarrow> bool" where
  "results_ok c prev [] = True"
| "results_ok c prev ((i, p, gap) # rs) =
     (i = c + 1 \<and> gap = (case prev of None \<Rightarrow> 0 | Some lp \<Rightarrow> p - lp) \<and>
      results_ok (c + 1) (Some p) rs)"

lemma results_ok_nth:
  assumes "results_ok c prev rs" and "j < length rs"
  shows "fst (rs ! j) = c + int j + 1 \<and>
         snd (snd (rs ! j)) =
           (if j = 0 then (case prev of None \<Rightarrow> 0 | Some lp \<Rightarrow> fst (snd (rs ! 0)) - lp)
            else fst (snd (rs ! j)) - fst (snd (rs ! (j - 1))))"
  using assms
proof (induction rs arbitrary: c prev j)
  case Nil
  then show ?case by simp
next
  case (Cons r rs)
  obtain i p gap where r: "r = (i, p, gap)" by (cases r)
  show ?case
  proof (cases j)
    case 0
    with Cons.prems r show ?thesis by (simp cong: option.case_cong)
  next
    case (Suc j')
    from Cons.prems(1) r have ok: "results_ok (c + 1) (Some p) rs" by simp
    from Cons.prems(2) Suc have lt: "j' < length rs" by simp
    from Cons.IH [OF ok lt] have ih: "fst (rs ! j') = c + 1 + int j' + 1"
      "snd (snd (rs ! j')) = (if j' = 0 then fst (snd (rs ! 0)) - p
         else fst (snd (rs ! j')) - fst (snd (rs ! (j' - 1))))"
      by simp_all
    show ?thesis
    proof (cases j')
      case 0
      with ih Suc r show ?thesis by simp
    next
      case (Suc j'')
      with ih \<open>j = Suc j'\<close> show ?thesis by simp
    qed
  qed
qed

lemma loop_head_ends:
  "\<not> within_limit g \<Longrightarrow>
   loop_head g t = Some (Inr (None, g\<lparr>g_engine := save_database (g_engine g), g_pc := Finished\<rparr>))"
  by (simp add: loop_head_def within_limit_def)

lemma gen_next_ends:
  assumes "gen_ok g" and "g_pc g \<noteq> Finished" and "\<not> within_limit g"
  shows "\<exists>g'. gen_next g t = Some (Inr (None, g'))"
proof (cases "g_pc g")
  case NotStarted
  with loop_head_ends [OF assms(3)] show ?thesis by (simp add: gen_next_def)
next
  case AtYield
  from after_yield_ok [OF assms(1)] obtain e1 where
    e1: "after_yield g = Inr (g\<lparr>g_engine := e1, g_last_prime := Some (g_p g), g_n := g_p g + 1\<rparr>)"
    by blast
  let ?g1 = "g\<lparr>g_engine := e1, g_last_prime := Some (g_p g), g_n := g_p g + 1\<rparr>"
  from assms(3) have "\<not> within_limit ?g1"
    by (simp add: within_limit_def split: option.splits)
  from loop_head_ends [OF this] AtYield e1 show ?thesis by (simp add: gen_next_def)
next
  case Finished
  with assms(2) show ?thesis by simp
qed

lemma gen_take_run:
  assumes "gen_ok g" and "g_pc g \<noteq> Finished"
  shows "\<exists>rs g'. gen_take k clock i g = Some (Inr (rs, g')) \<and>
           results_ok (g_count g) (gen_last g) rs \<and>
           length rs = (case g_limit g of None \<Rightarrow> k | Some l \<Rightarrow> min k (nat (l - g_count g)))"
  using assms
proof (induction k arbitrary: g i)
  case 0
  show ?case by (simp split: option.splits)
next
  case (Suc k)
  show ?case
  proof (cases "within_limit g")
    case True
    from gen_next_emits [OF Suc.prems True, of "clock i"] obtain p e2 where
      p: "gen_next g (clock i) =
          Some (Inr (Some (g_count g + 1, p, case gen_last g of None \<Rightarrow> 0 | Some lp \<Rightarrow> p - lp),
            \<lparr>g_engine = e2, g_limit = g_limit g, g_pc = AtYield, g_n = gen_pos g,
             g_last_prime = gen_last g, g_count = g_count g + 1, g_p = p\<rparr>))"
        "gen_ok \<lparr>g_engine = e2, g_limit = g_limit g, g_pc = AtYield, g_n = gen_pos g,
             g_last_prime = gen_last g, g_count = g_count g + 1, g_p = p\<rparr>"
      by blast
    let ?g1 = "\<lparr>g_engine = e2, g_limit = g_limit g, g_pc = AtYield, g_n = gen_pos g,
        g_last_prime = gen_last g, g_count = g_count g + 1, g_p = p\<rparr>"
    have pc1: "g_pc ?g1 \<noteq> Finished" by simp
    from Suc.IH [OF p(2) pc1, of "Suc i"] obtain rs g' where
      rs: "gen_take k clock (Suc i) ?g1 = Some (Inr (rs, g'))"
        "results_ok (g_count ?g1) (gen_last ?g1) rs"
        "length rs = (case g_limit ?g1 of None \<Rightarrow> k | Some l \<Rightarrow> min k (nat (l - g_count ?g1)))"
      by blast
    let ?r = "(g_count g + 1, p, case gen_last g of None \<Rightarrow> 0 | Some lp \<Rightarrow> p - lp)"
    from p(1) rs(1) have run: "gen_take (Suc k) clock i g = Some (Inr (?r # rs, g'))" by simp
    from rs(2) have ok: "results_ok (g_count g) (gen_last g) (?r # rs)"
      by (simp add: gen_last_def)
    from rs(3) True have len: "length (?r # rs) =
        (case g_limit g of None \<Rightarrow> Suc k | Some l \<Rightarrow> min (Suc k) (nat (l - g_count g)))"
      by (auto simp: within_limit_def split: option.splits)
    from run ok len show ?thesis by blast
  next
    case False
    from gen_next_ends [OF Suc.prems False, of "clock i"] obtain g' where
      "gen_next g (clock i) = Some (Inr (None, g'))" by blast
    then have run: "gen_take (Suc k) clock i g = Some (Inr ([], g'))" by simp
    from False have "length ([] :: (int \<times> int \<times> int) list) =
        (case g_limit g of None \<Rightarrow> Suc k | Some l \<Rightarrow> min (Suc k) (nat (l - g_count g)))"
      by (auto simp: within_limit_def split: option.splits)
    with run show ?thesis by (intro exI [of _ "[]"] exI [of _ g']) simp
  qed
qed

lemma generate_primes_ok:
  assumes "engine_ok e" and "running e" and "save_interval e \<noteq> 0" and "progress_interval e \<noteq> 0"
  shows "gen_ok (generate_primes e start limit)"
    and "g_pc (generate_primes e start limit) \<noteq> Finished"
    and "g_limit (generate_primes e start limit) = limit"
    and "gen_pos (generate_primes e start limit) = start"
    and "gen_last (generate_primes e start limit) = None"
    and "g_count (generate_primes e start limit) = 0"
  using assms by (simp_all add: generate_primes_def gen_ok_def gen_pos_def gen_last_def)

text \<open>
  C2. For an engine with a well-formed cache of true verdicts that has not been stopped
  and whose save and progress intervals are not 0, whatever the clock reads: the first
  five results of the generator started at 1 without a limit are \<open>(1,2,0)\<close>, \<open>(2,3,1)\<close>,
  \<open>(3,5,2)\<close>, \<open>(4,7,2)\<close>, \<open>(5,11,4)\<close>. From every start and with every limit, the first \<open>k\<close>
  calls give \<open>k\<close> results (as many as the limit allows, if that is less), numbered from 1;
  the gap of the first is 0 and the gap of each later one is its prime minus the prime
  of the result before it.
\<close>

theorem generator_first_results:
  assumes "engine_ok e" and "running e" and "save_interval e \<noteq> 0" and "progress_interval e \<noteq> 0"
  shows "(\<exists>g'. gen_take 5 clock 0 (generate_primes e 1 None) =
            Some (Inr ([(1, 2, 0), (2, 3, 1), (3, 5, 2), (4, 7, 2), (5, 11, 4)], g'))) \<and>
         (\<exists>rs g'. gen_take k clock 0 (generate_primes e start limit) = Some (Inr (rs, g')) \<and>
            length rs = (case limit of None \<Rightarrow> k | Some l \<Rightarrow> min k (nat l)) \<and>
            (\<forall>j < length rs. fst (rs ! j) = int j + 1 \<and>
               snd (snd (rs ! j)) =
                 (if j = 0 then 0 else fst (snd (rs ! j)) - fst (snd (rs ! (j - 1))))))"
proof (rule conjI)
  note g = generate_primes_ok [OF assms]
  have "chain 1 [2, 3, 5, 7, 11]" by code_simp
  then have ch: "chain (gen_pos (generate_primes e 1 None)) [2, 3, 5, 7, 11]"
    by (simp only: g(4))
  from gen_take_primes [OF g(1,2,3) ch, of clock 0] obtain g' where
    "gen_take (length [2, 3, 5, 7, 11 :: int]) clock 0 (generate_primes e 1 None) =
       Some (Inr (records (g_count (generate_primes e 1 None))
         (gen_last (generate_primes e 1 None)) [2, 3, 5, 7, 11], g'))"
    by blast
  moreover have "length [2, 3, 5, 7, 11 :: int] = 5" by simp
  moreover have "records 0 None [2, 3, 5, 7, 11] =
      [(1, 2, 0), (2, 3, 1), (3, 5, 2), (4, 7, 2), (5, 11, 4)]"
    by simp
  ultimately have "gen_take 5 clock 0 (generate_primes e 1 None) =
      Some (Inr ([(1, 2, 0), (2, 3, 1), (3, 5, 2), (4, 7, 2), (5, 11, 4)], g'))"
    by (simp only: g(5,6))
  then show "\<exists>g'. gen_take 5 clock 0 (generate_primes e 1 None) =
      Some (Inr ([(1, 2, 0), (2, 3, 1), (3, 5, 2), (4, 7, 2), (5, 11, 4)], g'))"
    by blast
next
  note g = generate_primes_ok [OF assms, of start limit]
  from gen_take_run [OF g(1,2), of k clock 0] obtain rs g' where
    rs: "gen_take k clock 0 (generate_primes e start limit) = Some (Inr (rs, g'))"
      "results_ok (g_count (generate_primes e start limit))
         (gen_last (generate_primes e start limit)) rs"
      "length rs = (case g_limit (generate_primes e start limit) of None \<Rightarrow> k
         | Some l \<Rightarrow> min k (nat (l - g_count (generate_primes e start limit))))"
    by blast
  from rs(2) have ok: "results_ok 0 None rs" by (simp only: g(5,6))
  from rs(3) have len: "length rs = (case limit of None \<Rightarrow> k | Some l \<Rightarrow> min k (nat l))"
    by (simp add: generate_primes_def split: option.splits)
  have "\<forall>j < length rs. fst (rs ! j) = int j + 1 \<and>
      snd (snd (rs ! j)) = (if j = 0 then 0 else fst (snd (rs ! j)) - fst (snd (rs ! (j - 1))))"
  proof (intro allI impI)
    fix j assume "j < length rs"
    from results_ok_nth [OF ok this]
    show "fst (rs ! j) = int j + 1 \<and>
      snd (snd (rs ! j)) = (if j = 0 then 0 else fst (snd (rs ! j)) - fst (snd (rs ! (j - 1))))"
      by simp
  qed
  with rs(1) len show "\<exists>rs g'. gen_take k clock 0 (generate_primes e start limit) =
      Some (Inr (rs, g')) \<and>
      length rs = (case limit of None \<Rightarrow> k | Some l \<Rightarrow> min k (nat l)) \<and>
      (\<forall>j < length rs. fst (rs ! j) = int j + 1 \<and>
         snd (snd (rs ! j)) =
           (if j = 0 then 0 else fst (snd (rs ! j)) - fst (snd (rs ! (j - 1)))))"
    by blast
qed

theorem generator_first_results_witness:
  "engine_ok (blank_engine default_config \<lparr>max_size = 10000, cache = [], access_order = []\<rparr>) \<and>
   running (blank_engine default_config \<lparr>max_size = 10000, cache = [], access_order = []\<rparr>) \<and>
   save_interval (blank_engine default_config \<lparr>max_size = 10000, cache = [], access_order = []\<rparr>) =
     1000 \<and>
   progress_interval
     (blank_engine default_config \<lparr>max_size = 10000, cache = [], access_order = []\<rparr>) = 100 \<and>
   (\<exists>g'. gen_take 5 (\<lambda>i. 1) 0
      (generate_primes
        (blank_engine default_config \<lparr>max_size = 10000, cache = [], access_order = []\<rparr>) 1 None) =
      Some (Inr ([(1, 2, 0), (2, 3, 1), (3, 5, 2), (4, 7, 2), (5, 11, 4)], g'))) \<and>
   (\<exists>g'. gen_take 4 (\<lambda>i. 1) 0
      (generate_primes
        (blank_engine default_config \<lparr>max_size = 10000, cache = [], access_order = []\<rparr>) 10
        (Some 3)) =
      Some (Inr ([(1, 11, 0), (2, 13, 2), (3, 17, 4)], g')))"
proof -
  let ?e = "blank_engine default_config \<lparr>max_size = 10000, cache = [], access_order = []\<rparr>"
  have ok: "engine_ok ?e"
    by (simp add: engine_ok_def blank_engine_def cache_inv_def cache_sound_def stats_ok_def
        PrimeStats_init_def is_int_def is_number_def dict_keys_def)
  have cfg: "running ?e" "save_interval ?e = 1000" "progress_interval ?e = 100"
    by (simp_all add: blank_engine_def default_config_def config_get_def)
  from cfg have ne: "save_interval ?e \<noteq> 0" "progress_interval ?e \<noteq> 0" by simp_all
  have "case gen_take 4 (\<lambda>i. 1) 0 (generate_primes ?e 10 (Some 3)) of
      Some (Inr (rs, g')) \<Rightarrow> rs = [(1, 11, 0), (2, 13, 2), (3, 17, 4)] | _ \<Rightarrow> False"
    by code_simp
  then have run: "\<exists>g'. gen_take 4 (\<lambda>i. 1) 0 (generate_primes ?e 10 (Some 3)) =
      Some (Inr ([(1, 11, 0), (2, 13, 2), (3, 17, 4)], g'))"
    by (auto split: option.splits sum.splits)
  from generator_first_results [OF ok cfg(1) ne, of "\<lambda>i. 1" 4 10 "Some 3"]
  have "\<exists>g'. gen_take 5 (\<lambda>i. 1) 0 (generate_primes ?e 1 None) =
      Some (Inr ([(1, 2, 0), (2, 3, 1), (3, 5, 2), (4, 7, 2), (5, 11, 4)], g'))"
    by (rule conjunct1)
  with ok cfg run show ?thesis by simp
qed

section \<open>The gap statistics of a run\<close>










section \<open>Faults of the configuration\<close>

lemma zero_interval_raises:
  assumes "engine_ok e" and "running e" and "save_interval e = 0 \<or> progress_interval e = 0"
  shows "(\<exists>r g1. gen_take 1 clock 0 (generate_primes e start None) = Some (Inr ([r], g1))) \<and>
         gen_take 2 clock 0 (generate_primes e start None) = Some (Inl ZeroDivisionError)"
proof -
  let ?g0 = "generate_primes e start None"
  have g0: "engine_ok (g_engine ?g0)" "running (g_engine ?g0)" "within_limit ?g0"
    "g_pc ?g0 = NotStarted"
    using assms(1,2) by (simp_all add: generate_primes_def within_limit_def)
  from loop_head_emits [OF g0(1,2,3), of "clock 0"] obtain p e1 e2 where
    p: "loop_head ?g0 (clock 0) =
        Some (Inr (Some (g_count ?g0 + 1, p,
            case g_last_prime ?g0 of None \<Rightarrow> 0 | Some lp \<Rightarrow> p - lp),
          ?g0\<lparr>g_engine := e2, g_count := g_count ?g0 + 1, g_p := p, g_pc := AtYield\<rparr>))"
      "same_but_counters (g_engine ?g0) e1" "same_but_stats e1 e2"
    by blast
  let ?r = "(g_count ?g0 + 1, p, case g_last_prime ?g0 of None \<Rightarrow> 0 | Some lp \<Rightarrow> p - lp)"
  let ?g1 = "?g0\<lparr>g_engine := e2, g_count := g_count ?g0 + 1, g_p := p, g_pc := AtYield\<rparr>"
  from p(1) g0(4) have n1: "gen_next ?g0 (clock 0) = Some (Inr (Some ?r, ?g1))"
    by (simp add: gen_next_def)
  from p(2,3) have iv: "save_interval e2 = save_interval e"
    "progress_interval e2 = progress_interval e"
    by (simp_all add: same_but_counters_def same_but_stats_def generate_primes_def)
  from assms(3) iv have "after_yield ?g1 = Inl ZeroDivisionError"
    by (auto simp: after_yield_def Let_def save_database_def)
  then have n2: "gen_next ?g1 (clock (Suc 0)) = Some (Inl ZeroDivisionError)"
    by (simp add: gen_next_def)
  from n1 have "gen_take 1 clock 0 ?g0 = Some (Inr ([?r], ?g1))" by simp
  moreover from n1 n2 have "gen_take 2 clock 0 ?g0 = Some (Inl ZeroDivisionError)"
    by (simp add: numeral_2_eq_2)
  ultimately show ?thesis by blast
qed

lemma init_dict:
  assumes "cfg_db_file cfg \<noteq> Some NotPath"
  shows "\<exists>e. BinaryPrimeEngine_init (Dict cfg) fs mt = (if mt then Inr e else Inl ValueError) \<and>
           ecache e = \<lparr>max_size = config_get (cfg_cache_size cfg) 10000, cache = [],
                       access_order = []\<rparr> \<and>
           save_interval e = config_get (cfg_save_interval cfg) 1000 \<and>
           progress_interval e = config_get (cfg_progress_interval cfg) 100 \<and> running e"
proof -
  let ?c = "\<lparr>max_size = config_get (cfg_cache_size cfg) 10000, cache = [], access_order = []\<rparr>"
  from assms have "config_get (cfg_db_file cfg) (PathStr ''binary_codes.json'') \<noteq> NotPath"
    by (cases "cfg_db_file cfg") (simp_all add: config_get_def)
  then obtain s where path: "py_Path (config_get (cfg_db_file cfg) (PathStr ''binary_codes.json'')) = Inr s"
    by (cases "config_get (cfg_db_file cfg) (PathStr ''binary_codes.json'')")
      (simp_all add: py_Path_def)
  from load_database_total [of fs "blank_engine cfg ?c"] obtain e where
    e: "load_database fs (blank_engine cfg ?c) = Inr e" "same_but_loaded (blank_engine cfg ?c) e"
    by blast
  from path e(1) have "BinaryPrimeEngine_init (Dict cfg) fs mt =
      (if mt then Inr e else Inl ValueError)"
    by (simp add: BinaryPrimeEngine_init_def PrimeCache_init_def)
  with e(2) show ?thesis by (intro exI [of _ e]) (simp add: same_but_loaded_def blank_engine_def)
qed

lemma init_not_path:
  assumes "cfg_db_file cfg = Some NotPath"
  shows "BinaryPrimeEngine_init (Dict cfg) fs mt = Inl TypeError"
  using assms by (simp add: BinaryPrimeEngine_init_def config_get_def py_Path_def)

text \<open>
  C8, as the code has it. No capacity is rejected: the cache constructor stores any
  \<open>max_size\<close>, negative ones too, and so does the engine constructor, which has no
  validation and never raises \<^verbatim>\<open>InvalidConfiguration\<close>. What it raises is \<^verbatim>\<open>AttributeError\<close>
  for a true argument that is no dictionary, \<^verbatim>\<open>TypeError\<close> for a \<^verbatim>\<open>db_file\<close> that is no
  path, and \<^verbatim>\<open>ValueError\<close> off the main thread; with a dictionary, a path and the main
  thread it returns an engine with the capacity and the intervals of the configuration,
  whatever the database file holds. An interval of 0 is a fault of the configuration that
  surfaces later: the generator gives its first result and raises \<^verbatim>\<open>ZeroDivisionError\<close>
  when it is resumed.
\<close>

theorem construction_faults:
  "PrimeCache_init m = Inr \<lparr>max_size = m, cache = [], access_order = []\<rparr> \<and>
   BinaryPrimeEngine_init NotDict fs mt = Inl AttributeError \<and>
   BinaryPrimeEngine_init NoConfig fs mt = BinaryPrimeEngine_init (Dict default_config) fs mt \<and>
   (cfg_db_file cfg = Some NotPath \<longrightarrow>
      BinaryPrimeEngine_init (Dict cfg) fs mt = Inl TypeError) \<and>
   (cfg_db_file cfg \<noteq> Some NotPath \<longrightarrow>
      BinaryPrimeEngine_init (Dict cfg) fs False = Inl ValueError \<and>
      (\<exists>e'. BinaryPrimeEngine_init (Dict cfg) fs True = Inr e' \<and>
         ecache e' = \<lparr>max_size = config_get (cfg_cache_size cfg) 10000, cache = [],
                      access_order = []\<rparr> \<and>
         save_interval e' = config_get (cfg_save_interval cfg) 1000 \<and>
         progress_interval e' = config_get (cfg_progress_interval cfg) 100 \<and> running e')) \<and>
   BinaryPrimeEngine_init arg fs mt \<noteq> Inl InvalidConfiguration \<and>
   (engine_ok e \<and> running e \<and> (save_interval e = 0 \<or> progress_interval e = 0) \<longrightarrow>
      (\<exists>r g1. gen_take 1 clock 0 (generate_primes e start None) = Some (Inr ([r], g1))) \<and>
      gen_take 2 clock 0 (generate_primes e start None) = Some (Inl ZeroDivisionError))"
proof (intro conjI impI)
  show "PrimeCache_init m = Inr \<lparr>max_size = m, cache = [], access_order = []\<rparr>"
    by (simp add: PrimeCache_init_def)
  show "BinaryPrimeEngine_init NotDict fs mt = Inl AttributeError"
    by (simp add: BinaryPrimeEngine_init_def)
  show "BinaryPrimeEngine_init NoConfig fs mt = BinaryPrimeEngine_init (Dict default_config) fs mt"
    by (simp add: BinaryPrimeEngine_init_def)
next
  assume "cfg_db_file cfg = Some NotPath"
  then show "BinaryPrimeEngine_init (Dict cfg) fs mt = Inl TypeError" by (rule init_not_path)
next
  assume a: "cfg_db_file cfg \<noteq> Some NotPath"
  from init_dict [OF a, of fs False]
  show "BinaryPrimeEngine_init (Dict cfg) fs False = Inl ValueError" by simp
  from init_dict [OF a, of fs True]
  show "\<exists>e'. BinaryPrimeEngine_init (Dict cfg) fs True = Inr e' \<and>
      ecache e' = \<lparr>max_size = config_get (cfg_cache_size cfg) 10000, cache = [],
                   access_order = []\<rparr> \<and>
      save_interval e' = config_get (cfg_save_interval cfg) 1000 \<and>
      progress_interval e' = config_get (cfg_progress_interval cfg) 100 \<and> running e'"
    by simp
next
  show "BinaryPrimeEngine_init arg fs mt \<noteq> Inl InvalidConfiguration"
  proof (cases arg)
    case NoConfig
    have "cfg_db_file default_config \<noteq> Some NotPath" by (simp add: default_config_def)
    from init_dict [OF this, of fs mt] NoConfig show ?thesis
      by (auto simp: BinaryPrimeEngine_init_def split: if_splits)
  next
    case NotDict
    then show ?thesis by (simp add: BinaryPrimeEngine_init_def)
  next
    case (Dict c)
    show ?thesis
    proof (cases "cfg_db_file c = Some NotPath")
      case True
      from init_not_path [OF True, of fs mt] Dict show ?thesis by simp
    next
      case False
      from init_dict [OF False, of fs mt] Dict show ?thesis by (auto split: if_splits)
    qed
  qed
next
  assume a: "engine_ok e \<and> running e \<and> (save_interval e = 0 \<or> progress_interval e = 0)"
  then have b: "engine_ok e" "running e" "save_interval e = 0 \<or> progress_interval e = 0"
    by simp_all
  from zero_interval_raises [OF b, of clock start]
  show "\<exists>r g1. gen_take 1 clock 0 (generate_primes e start None) = Some (Inr ([r], g1))"
    and "gen_take 2 clock 0 (generate_primes e start None) = Some (Inl ZeroDivisionError)"
    by simp_all
qed

theorem construction_faults_witness:
  "cfg_db_file (default_config\<lparr>cfg_db_file := Some NotPath\<rparr>) = Some NotPath \<and>
   BinaryPrimeEngine_init (Dict (default_config\<lparr>cfg_db_file := Some NotPath\<rparr>)) Missing True =
     Inl TypeError \<and>
   BinaryPrimeEngine_init (Dict (default_config\<lparr>cfg_cache_size := Some 5\<rparr>)) Missing False =
     Inl ValueError \<and>
   BinaryPrimeEngine_init (Dict (default_config\<lparr>cfg_cache_size := Some 5\<rparr>)) Missing True =
     Inr (blank_engine default_config \<lparr>max_size = 5, cache = [], access_order = []\<rparr>) \<and>
   engine_ok ((blank_engine default_config \<lparr>max_size = 5, cache = [], access_order = []\<rparr>)
     \<lparr>progress_interval := 0\<rparr>) \<and>
   gen_take 1 (\<lambda>i. 1) 0
     (generate_primes ((blank_engine default_config \<lparr>max_size = 5, cache = [], access_order = []\<rparr>)
        \<lparr>progress_interval := 0\<rparr>) 1 None) \<noteq> Some (Inl ZeroDivisionError) \<and>
   gen_take 2 (\<lambda>i. 1) 0
     (generate_primes ((blank_engine default_config \<lparr>max_size = 5, cache = [], access_order = []\<rparr>)
        \<lparr>progress_interval := 0\<rparr>) 1 None) = Some (Inl ZeroDivisionError)"
proof -
  let ?e = "(blank_engine default_config \<lparr>max_size = 5, cache = [], access_order = []\<rparr>)
     \<lparr>progress_interval := 0\<rparr>"
  let ?np = "default_config\<lparr>cfg_db_file := Some NotPath\<rparr>"
  let ?c5 = "default_config\<lparr>cfg_cache_size := Some 5\<rparr>"
  have ok: "engine_ok ?e"
    by (simp add: engine_ok_def blank_engine_def cache_inv_def cache_sound_def stats_ok_def
        PrimeStats_init_def is_int_def is_number_def dict_keys_def)
  have run: "running ?e" "progress_interval ?e = 0" by (simp_all add: blank_engine_def)
  have np: "cfg_db_file ?np = Some NotPath" by simp
  have c5: "cfg_db_file ?c5 \<noteq> Some NotPath" by (simp add: default_config_def)
  have i5: "BinaryPrimeEngine_init (Dict ?c5) Missing True =
      Inr (blank_engine default_config \<lparr>max_size = 5, cache = [], access_order = []\<rparr>)"
    by (simp add: BinaryPrimeEngine_init_def PrimeCache_init_def load_database_def
        load_body_def config_get_def default_config_def blank_engine_def py_Path_def)
  from construction_faults [of 5 Missing True ?np NoConfig ?e "\<lambda>i. 1" 1] np ok run
  have a: "BinaryPrimeEngine_init (Dict ?np) Missing True = Inl TypeError"
    "\<exists>r g1. gen_take 1 (\<lambda>i. 1) 0 (generate_primes ?e 1 None) = Some (Inr ([r], g1))"
    "gen_take 2 (\<lambda>i. 1) 0 (generate_primes ?e 1 None) = Some (Inl ZeroDivisionError)"
    by simp_all
  from construction_faults [of 5 Missing False ?c5 NoConfig ?e "\<lambda>i. 1" 1] c5
  have b: "BinaryPrimeEngine_init (Dict ?c5) Missing False = Inl ValueError" by simp
  from a(2) have "gen_take 1 (\<lambda>i. 1) 0 (generate_primes ?e 1 None) \<noteq> Some (Inl ZeroDivisionError)"
    by auto
  with np a(1,3) b i5 ok show ?thesis by (intro conjI)
qed

text \<open>
  C8 as stated fails. A cache and an engine with capacity \<open>-1\<close> are constructed without an
  error. Faults that are no validation faults propagate from the constructor, such as
  \<^verbatim>\<open>AttributeError\<close> for the argument \<^verbatim>\<open>[1]\<close>. And a fault of the configuration can
  propagate after construction: with \<^verbatim>\<open>save_interval\<close> 0 the engine is constructed, and the
  generator raises \<^verbatim>\<open>ZeroDivisionError\<close> at the second call of \<^verbatim>\<open>next\<close>.
\<close>

theorem negative_capacity_counterexample:
  "PrimeCache_init (- 1) = Inr \<lparr>max_size = - 1, cache = [], access_order = []\<rparr> \<and>
   BinaryPrimeEngine_init (Dict (default_config\<lparr>cfg_cache_size := Some (- 1)\<rparr>)) Missing True =
     Inr (blank_engine default_config \<lparr>max_size = - 1, cache = [], access_order = []\<rparr>) \<and>
   BinaryPrimeEngine_init NotDict Missing True = Inl AttributeError \<and>
   BinaryPrimeEngine_init (Dict (default_config\<lparr>cfg_save_interval := Some 0\<rparr>)) Missing True =
     Inr ((blank_engine default_config \<lparr>max_size = 10000, cache = [], access_order = []\<rparr>)
       \<lparr>save_interval := 0\<rparr>) \<and>
   gen_take 2 (\<lambda>i. 1) 0
     (generate_primes
       ((blank_engine default_config \<lparr>max_size = 10000, cache = [], access_order = []\<rparr>)
          \<lparr>save_interval := 0\<rparr>) 1 None) = Some (Inl ZeroDivisionError)"
proof -
  have "gen_take 2 (\<lambda>i. 1) 0
     (generate_primes
       ((blank_engine default_config \<lparr>max_size = 10000, cache = [], access_order = []\<rparr>)
          \<lparr>save_interval := 0\<rparr>) 1 None) = Some (Inl ZeroDivisionError)"
    by code_simp
  then show ?thesis
    by (simp add: PrimeCache_init_def BinaryPrimeEngine_init_def load_database_def
        load_body_def config_get_def default_config_def blank_engine_def py_Path_def)
qed

end
